theory Spec2Isabelle
  imports Main "HOL-Library.Word" "HOL-Library.Char_ord" "HOL-Library.List_Lexorder"
    "HOL-Library.AList"
begin

section \<open>Terrain Lighting Eliminator: a shallow embedding of terrain\_lighting\_eliminator.py\<close>

subsection \<open>Bytes, exceptions and the struct module\<close>

text \<open>
  A Python \<open>bytes\<close> or \<open>bytearray\<close> value is a list of 8-bit words. Offsets and the
  integers that \<open>struct.unpack_from\<close> returns for the unsigned formats \<open>I\<close> and \<open>H\<close> are
  never negative and Python integers do not overflow, so they are natural numbers.
\<close>

type_synonym byte = "8 word"
type_synonym bytes = "byte list"

text \<open>
  The exceptions the program can meet. All of them are subclasses of Python's \<open>Exception\<close>.
  \<open>LibraryError\<close> stands for whatever one of the two external codecs (\<open>nsmbpy2.u8\<close>,
  \<open>lz77\<close>) raises.
\<close>

datatype exception =
    StructError
  | IndexError
  | TypeError
  | KeyError
  | OSError
  | NotADirectoryError
  | LibraryError string

text \<open>
  \<open>struct.unpack_from(fmt, buffer, offset)\<close> with a non-negative offset raises
  \<open>struct.error\<close> unless the buffer holds \<open>calcsize(fmt)\<close> bytes from \<open>offset\<close> on.
  Both formats are big-endian (\<open>>\<close>).
\<close>

definition unpack_from_II :: "bytes \<Rightarrow> nat \<Rightarrow> exception + nat \<times> nat" where
  "unpack_from_II data off =
     (if off + 8 \<le> length data then
        Inr (((unat (data ! off) * 256 + unat (data ! (off + 1))) * 256
                + unat (data ! (off + 2))) * 256 + unat (data ! (off + 3)),
             ((unat (data ! (off + 4)) * 256 + unat (data ! (off + 5))) * 256
                + unat (data ! (off + 6))) * 256 + unat (data ! (off + 7)))
      else Inl StructError)"

definition unpack_from_H :: "bytes \<Rightarrow> nat \<Rightarrow> exception + nat" where
  "unpack_from_H data off =
     (if off + 2 \<le> length data then
        Inr (unat (data ! off) * 256 + unat (data ! (off + 1)))
      else Inl StructError)"

text \<open>
  \<open>struct.pack_into('>H', buffer, offset, v)\<close> raises \<open>struct.error\<close> when \<open>v\<close> does not
  fit 16 bits or the buffer is too short, and otherwise overwrites two bytes in place.
\<close>

definition pack_into_H :: "bytes \<Rightarrow> nat \<Rightarrow> nat \<Rightarrow> exception + bytes" where
  "pack_into_H data off v =
     (if v < 65536 \<and> off + 2 \<le> length data then
        Inr (data[off := of_nat (v div 256), off + 1 := of_nat (v mod 256)])
      else Inl StructError)"

subsection \<open>fix\_course\_file (lines 33--52)\<close>

text \<open>
  The \<open>for i in range(zones_size // 24)\<close> loop, as a recursion over the list of indices that
  \<open>range\<close> yields. \<open>data\<close> is the bytearray being patched and \<open>num_fixes\<close> the counter;
  an exception of \<open>unpack_from\<close> or \<open>pack_into\<close> leaves the loop at once.
\<close>

fun fix_loop :: "nat \<Rightarrow> nat list \<Rightarrow> bytes \<Rightarrow> nat \<Rightarrow> exception + bytes \<times> nat" where
  "fix_loop zones_off [] data num_fixes = Inr (data, num_fixes)"
| "fix_loop zones_off (i # rest) data num_fixes =
     (let off = zones_off + i * 24 + 10 in
      case unpack_from_H data off of
        Inl e \<Rightarrow> Inl e
      | Inr terrain_lighting \<Rightarrow>
          if terrain_lighting \<noteq> 0 then
            (case pack_into_H data off 0 of
               Inl e \<Rightarrow> Inl e
             | Inr data' \<Rightarrow> fix_loop zones_off rest data' (num_fixes + 1))
          else fix_loop zones_off rest data num_fixes)"

text \<open>
  \<open>data = bytearray(data)\<close> copies the argument, so on values the function maps the input
  bytes to the patched bytes and the number of fixes. (The copy itself is modelled on a
  store of buffers further down, where aliasing matters.)
\<close>

definition fix_course_file :: "bytes \<Rightarrow> exception + bytes \<times> nat" where
  "fix_course_file data =
     (case unpack_from_II data 0x48 of
        Inl e \<Rightarrow> Inl e
      | Inr (zones_off, zones_size) \<Rightarrow> fix_loop zones_off [0..<zones_size div 24] data 0)"


text \<open>
  The same function on a store of buffers, for the question of aliasing. A reference is
  an index into the list of live buffers; \<open>bytearray(data)\<close> allocates a new buffer
  holding a copy, and \<open>pack_into\<close> overwrites the buffer it is given in place.
\<close>

type_synonym ref = nat
type_synonym store = "bytes list"

fun fix_loop_st :: "nat \<Rightarrow> nat list \<Rightarrow> store \<Rightarrow> ref \<Rightarrow> nat \<Rightarrow> exception + store \<times> nat" where
  "fix_loop_st zones_off [] h data num_fixes = Inr (h, num_fixes)"
| "fix_loop_st zones_off (i # rest) h data num_fixes =
     (let off = zones_off + i * 24 + 10 in
      case unpack_from_H (h ! data) off of
        Inl e \<Rightarrow> Inl e
      | Inr terrain_lighting \<Rightarrow>
          if terrain_lighting \<noteq> 0 then
            (case pack_into_H (h ! data) off 0 of
               Inl e \<Rightarrow> Inl e
             | Inr buf \<Rightarrow> fix_loop_st zones_off rest (h[data := buf]) data (num_fixes + 1))
          else fix_loop_st zones_off rest h data num_fixes)"

definition fix_course_file_st :: "store \<Rightarrow> ref \<Rightarrow> exception + store \<times> ref \<times> nat" where
  "fix_course_file_st h arg =
     (let data = length h; h1 = h @ [h ! arg] in
      case unpack_from_II (h1 ! data) 0x48 of
        Inl e \<Rightarrow> Inl e
      | Inr (zones_off, zones_size) \<Rightarrow>
          (case fix_loop_st zones_off [0..<zones_size div 24] h1 data 0 of
             Inl e \<Rightarrow> Inl e
           | Inr (h', num_fixes) \<Rightarrow> Inr (h', data, num_fixes)))"

subsection \<open>Strings and paths\<close>

text \<open>
  A \<open>pathlib.Path\<close> is the list of its parts, the first of which is the root \<open>/\<close> (or
  \<open>//\<close>) when the path is absolute; \<open>fp.name\<close> is the last part. \<open>str(fp)\<close> joins
  the parts with \<open>/\<close>, with no separator after the root. File names are
  strings of 8-bit characters, and \<open>str.lower\<close> is modelled on the ASCII letters (no
  character outside ASCII lowers to one of the letters of \<open>.arc\<close> or \<open>.lz\<close>).
  \<open>suffix\<close> and \<open>suffixes\<close> follow CPython's \<open>pathlib.PurePath\<close> (3.11).
\<close>

type_synonym path = "string list"

definition path_name :: "path \<Rightarrow> string" where
  "path_name fp = (if fp = [] then [] else last fp)"

fun path_str :: "path \<Rightarrow> string" where
  "path_str [] = ''.''"
| "path_str [p] = p"
| "path_str (p # q # ps) =
     (if p = ''/'' \<or> p = ''//'' then p @ path_str (q # ps)
      else p @ ''/'' @ path_str (q # ps))"

definition char_lower :: "char \<Rightarrow> char" where
  "char_lower ch =
     (if CHR ''A'' \<le> ch \<and> ch \<le> CHR ''Z'' then char_of (of_char ch + (32 :: nat)) else ch)"

definition str_lower :: "string \<Rightarrow> string" where
  "str_lower s = map char_lower s"

text \<open>\<open>s.rfind(ch)\<close>: the highest index of \<open>ch\<close> in \<open>s\<close>, or \<open>-1\<close>.\<close>

primrec str_rfind :: "string \<Rightarrow> char \<Rightarrow> int" where
  "str_rfind [] ch = -1"
| "str_rfind (x # xs) ch =
     (let r = str_rfind xs ch in if 0 \<le> r then r + 1 else if x = ch then 0 else -1)"

text \<open>\<open>s.split(sep)\<close> for a one-character separator: never the empty list.\<close>

primrec str_split :: "string \<Rightarrow> char \<Rightarrow> string list" where
  "str_split [] sep = [[]]"
| "str_split (x # xs) sep =
     (if x = sep then [] # str_split xs sep
      else (case str_split xs sep of [] \<Rightarrow> [[x]] | p # ps \<Rightarrow> (x # p) # ps))"

definition str_lstrip :: "string \<Rightarrow> char \<Rightarrow> string" where
  "str_lstrip s ch = dropWhile (\<lambda>x. x = ch) s"

definition str_endswith :: "string \<Rightarrow> char \<Rightarrow> bool" where
  "str_endswith s ch = (s \<noteq> [] \<and> last s = ch)"

definition suffix :: "path \<Rightarrow> string" where
  "suffix fp =
     (let name = path_name fp; i = str_rfind name CHR ''.'' in
      if 0 < i \<and> i < int (length name) - 1 then drop (nat i) name else [])"

definition suffixes :: "path \<Rightarrow> string list" where
  "suffixes fp =
     (let name = path_name fp in
      if str_endswith name CHR ''.'' then []
      else map (\<lambda>suffix. CHR ''.'' # suffix) (tl (str_split (str_lstrip name CHR ''.'') CHR ''.'')))"

text \<open>\<open>f'{n}'\<close> for a non-negative integer: its decimal digits.\<close>

fun str_nat :: "nat \<Rightarrow> string" where
  "str_nat n =
     (if n < 10 then [char_of (48 + n)] else str_nat (n div 10) @ [char_of (48 + n mod 10)])"

declare str_nat.simps [simp del]

subsection \<open>does\_path\_look\_like\_level (lines 125--132)\<close>

definition does_path_look_like_level :: "path \<Rightarrow> bool" where
  "does_path_look_like_level fp =
     (if str_lower (suffix fp) = ''.arc'' then True
      else if 2 \<le> length (suffixes fp)
              \<and> str_lower (suffixes fp ! (length (suffixes fp) - 2)) = ''.arc''
              \<and> str_lower (suffixes fp ! (length (suffixes fp) - 1)) = ''.lz'' then True
      else False)"

subsection \<open>The external codecs and the decoded container\<close>

text \<open>
  \<open>nsmbpy2.u8\<close> and \<open>lz77\<close> are not part of the source file: the four functions the
  program calls are parameters of the model, and each may raise. What \<open>nsmbpy2.u8.load\<close>
  returns is used as a dictionary with insertion order whose values are byte strings or
  nested dictionaries; it is an association list here, and \<open>d[k] = v\<close> on a key that is
  present keeps the key's position.
\<close>

datatype u8node = U8File bytes | U8Folder "(string \<times> u8node) list"

type_synonym u8dict = "(string \<times> u8node) list"

record codecs =
  u8_load :: "bytes \<Rightarrow> exception + u8dict"
  u8_save :: "u8dict \<Rightarrow> exception + bytes"
  Decompress11LZS :: "bytes \<Rightarrow> exception + bytes"
  Compress11LZS :: "bytes \<Rightarrow> exception + bytes"

subsection \<open>scan\_file: sniffing the first four bytes (lines 60--68)\<close>

text \<open>
  The four branches of the \<open>if\<close> chain. The first two set \<open>is_compressed\<close> to \<open>False\<close> and
  \<open>True\<close>; the last two are the two \<open>return\<close>s. \<open>first_4[0]\<close> raises \<open>IndexError\<close> on an
  empty file.
\<close>

datatype compression_state = NoCompression | ProprietaryCompressed | Unsupported | Unrecognized

definition classify :: "bytes \<Rightarrow> exception + compression_state" where
  "classify first_4 =
     (if first_4 = [0x55, 0xAA, 0x38, 0x2D] then Inr NoCompression
      else if first_4 = [] then Inl IndexError
      else if unat (first_4 ! 0) = 0x11 then Inr ProprietaryCompressed
      else if drop_bit 4 (unat (first_4 ! 0)) = 4 then Inr Unsupported
      else Inr Unrecognized)"

subsection \<open>scan\_file: fixing each area (lines 83--93)\<close>

text \<open>
  \<open>fix_course_file\<close> starts with \<open>bytearray(data)\<close>. On a byte string that is a copy; on a
  dictionary (a folder where a course file is expected) it is empty for an empty dictionary
  and raises \<open>TypeError\<close> otherwise, since the keys are strings.
\<close>

definition fix_course_entry :: "u8node \<Rightarrow> exception + bytes \<times> nat" where
  "fix_course_entry v =
     (case v of
        U8File data \<Rightarrow> fix_course_file data
      | U8Folder d \<Rightarrow> if d = [] then fix_course_file [] else Inl TypeError)"

definition course_fn :: "nat \<Rightarrow> string" where
  "course_fn i = ''course'' @ str_nat i @ ''.bin''"

fun fix_areas_loop ::
  "nat list \<Rightarrow> u8dict \<Rightarrow> nat \<Rightarrow> nat \<Rightarrow> exception + u8dict \<times> nat \<times> nat" where
  "fix_areas_loop [] course total_fixes total_areas_fixed =
     Inr (course, total_fixes, total_areas_fixed)"
| "fix_areas_loop (i # rest) course total_fixes total_areas_fixed =
     (case map_of course (course_fn i) of
        None \<Rightarrow> fix_areas_loop rest course total_fixes total_areas_fixed
      | Some v \<Rightarrow>
          (case fix_course_entry v of
             Inl e \<Rightarrow> Inl e
           | Inr (new_course_data, num_fixes) \<Rightarrow>
               if 0 < num_fixes then
                 fix_areas_loop rest
                   (AList.update (course_fn i) (U8File new_course_data) course)
                   (total_fixes + num_fixes) (total_areas_fixed + 1)
               else fix_areas_loop rest course total_fixes total_areas_fixed))"

definition fix_areas :: "u8dict \<Rightarrow> exception + u8dict \<times> nat \<times> nat" where
  "fix_areas course = fix_areas_loop [1..<5] course 0 0"

text \<open>
  Lines 81--93 on the decoded container: \<open>course = u8['course']\<close> is an alias of the
  nested dictionary, so the assignments of the loop change \<open>u8\<close> itself. A byte string in
  the place of the folder makes \<open>course_fn in course\<close> raise \<open>TypeError\<close>.
\<close>

definition fix_container :: "u8dict \<Rightarrow> exception + u8dict \<times> nat \<times> nat" where
  "fix_container u8 =
     (case map_of u8 ''course'' of
        None \<Rightarrow> Inl KeyError
      | Some (U8File data) \<Rightarrow> Inl TypeError
      | Some (U8Folder course) \<Rightarrow>
          (case fix_areas course of
             Inl e \<Rightarrow> Inl e
           | Inr (course', total_fixes, total_areas_fixed) \<Rightarrow>
               Inr (AList.update ''course'' (U8Folder course') u8,
                    total_fixes, total_areas_fixed)))"

subsection \<open>The file system and the console\<close>

text \<open>
  The world the program acts on: the contents of the regular files, and the trace of what
  it did, oldest event first. The directory structure, which the program never changes, is
  a tree of its own.
\<close>

datatype event =
    Opened path
  | ReadBytes path
  | Wrote path bytes
  | Printed string
  | PrintedTraceback exception

record world =
  files :: "path \<rightharpoonup> bytes"
  trace :: "event list"

datatype fs_tree = RegularFile | Directory "(string \<times> fs_tree) list"

definition emit :: "event \<Rightarrow> world \<Rightarrow> world" where
  "emit ev w = w\<lparr>trace := trace w @ [ev]\<rparr>"

definition read_first_4 :: "path \<Rightarrow> world \<Rightarrow> (exception + bytes) \<times> world" where
  "read_first_4 fp w =
     (case files w fp of
        None \<Rightarrow> (Inl OSError, w)
      | Some content \<Rightarrow> (Inr (take 4 content), emit (Opened fp) w))"

definition read_bytes :: "path \<Rightarrow> world \<Rightarrow> (exception + bytes) \<times> world" where
  "read_bytes fp w =
     (case files w fp of
        None \<Rightarrow> (Inl OSError, w)
      | Some content \<Rightarrow> (Inr content, emit (ReadBytes fp) w))"

definition write_bytes :: "path \<Rightarrow> bytes \<Rightarrow> world \<Rightarrow> (exception + unit) \<times> world" where
  "write_bytes fp data w = (Inr (), emit (Wrote fp data) (w\<lparr>files := (files w)(fp \<mapsto> data)\<rparr>))"

subsection \<open>scan\_file (lines 55--113)\<close>

definition decode_container :: "codecs \<Rightarrow> bool \<Rightarrow> bytes \<Rightarrow> exception + u8dict" where
  "decode_container c is_compressed data =
     (case (if is_compressed then Decompress11LZS c data else Inr data) of
        Inl e \<Rightarrow> Inl e
      | Inr data' \<Rightarrow> u8_load c data')"

definition encode_container :: "codecs \<Rightarrow> bool \<Rightarrow> u8dict \<Rightarrow> exception + bytes" where
  "encode_container c is_compressed u8 =
     (case u8_save c u8 of
        Inl e \<Rightarrow> Inl e
      | Inr data \<Rightarrow> if is_compressed then Compress11LZS c data else Inr data)"

definition summary_line :: "nat \<Rightarrow> nat \<Rightarrow> path \<Rightarrow> string" where
  "summary_line total_fixes total_areas_fixed fp =
     ''Fixed '' @ str_nat total_fixes @ '' zone''
       @ (if total_fixes \<noteq> 1 then ''s'' else [])
       @ '' in '' @ str_nat total_areas_fixed @ '' area''
       @ (if total_areas_fixed \<noteq> 1 then ''s'' else [])
       @ '' in '' @ path_str fp"

text \<open>Lines 70--113: what follows the sniffing, once \<open>is_compressed\<close> is known.\<close>

definition scan_container :: "codecs \<Rightarrow> path \<Rightarrow> bool \<Rightarrow> world \<Rightarrow> (exception + unit) \<times> world" where
  "scan_container c fp is_compressed w =
     (case read_bytes fp w of
        (Inl e, w1) \<Rightarrow> (Inl e, w1)
      | (Inr data, w1) \<Rightarrow>
          (case decode_container c is_compressed data of
             Inl e \<Rightarrow> (Inl e, w1)
           | Inr u8 \<Rightarrow>
               if map fst u8 \<noteq> [''course''] then (Inr (), w1)
               else
                 (case fix_container u8 of
                    Inl e \<Rightarrow> (Inl e, w1)
                  | Inr (u8', total_fixes, total_areas_fixed) \<Rightarrow>
                      if 0 < total_fixes then
                        (let w2 = emit (Printed (summary_line total_fixes total_areas_fixed fp)) w1 in
                         case encode_container c is_compressed u8' of
                           Inl e \<Rightarrow> (Inl e, w2)
                         | Inr data' \<Rightarrow> write_bytes fp data' w2)
                      else (Inr (), w1))))"

definition scan_file :: "codecs \<Rightarrow> path \<Rightarrow> world \<Rightarrow> (exception + unit) \<times> world" where
  "scan_file c fp w =
     (case read_first_4 fp w of
        (Inl e, w1) \<Rightarrow> (Inl e, w1)
      | (Inr first_4, w1) \<Rightarrow>
          (case classify first_4 of
             Inl e \<Rightarrow> (Inl e, w1)
           | Inr NoCompression \<Rightarrow> scan_container c fp False w1
           | Inr ProprietaryCompressed \<Rightarrow> scan_container c fp True w1
           | Inr Unsupported \<Rightarrow> (Inr (), w1)
           | Inr Unrecognized \<Rightarrow> (Inr (), w1)))"

subsection \<open>scan\_file\_safe (lines 116--122)\<close>

text \<open>
  \<open>except Exception\<close> catches every exception of the model; the handler prints the path and
  the traceback and the function returns \<open>None\<close>.
\<close>

definition scan_file_safe :: "codecs \<Rightarrow> path \<Rightarrow> world \<Rightarrow> (exception + unit) \<times> world" where
  "scan_file_safe c fp w =
     (case scan_file c fp w of
        (Inr u, w1) \<Rightarrow> (Inr u, w1)
      | (Inl e, w1) \<Rightarrow>
          (Inr (), emit (PrintedTraceback e)
                     (emit (Printed (''ERROR while checking \"'' @ path_str fp @ ''\":'')) w1)))"

subsection \<open>scan\_folder (lines 135--151) and main (lines 177--182)\<close>

text \<open>
  \<open>fp.iterdir()\<close> lists the entries of a directory of the tree in no particular order and
  \<open>sorted\<close> orders the children by name. The tree holds regular files and directories
  only. The first loop handles the files of the folder, the second one its subfolders.
\<close>

definition is_dir :: "fs_tree \<Rightarrow> bool" where
  "is_dir t = (case t of Directory entries \<Rightarrow> True | RegularFile \<Rightarrow> False)"

definition is_file :: "fs_tree \<Rightarrow> bool" where
  "is_file t = (case t of RegularFile \<Rightarrow> True | Directory entries \<Rightarrow> False)"

fun scan_files ::
  "codecs \<Rightarrow> path \<Rightarrow> (string \<times> fs_tree) list \<Rightarrow> world \<Rightarrow> (exception + unit) \<times> world" where
  "scan_files c fp [] w = (Inr (), w)"
| "scan_files c fp ((n, t) # rest) w =
     (let child = fp @ [n] in
      if is_dir t then scan_files c fp rest w
      else if does_path_look_like_level child then
        (case scan_file_safe c child w of
           (Inl e, w1) \<Rightarrow> (Inl e, w1)
         | (Inr u, w1) \<Rightarrow> scan_files c fp rest w1)
      else scan_files c fp rest w)"

lemma size_list_insort_key: "size_list f (insort_key k x xs) = size_list f (x # xs)"
  by (induction xs) auto

lemma size_list_sort_key: "size_list f (sort_key k xs) = size_list f xs"
  by (induction xs) (auto simp: size_list_insort_key)

function scan_folder ::
    "codecs \<Rightarrow> path \<Rightarrow> fs_tree \<Rightarrow> bool \<Rightarrow> world \<Rightarrow> (exception + unit) \<times> world"
  and scan_subfolders ::
    "codecs \<Rightarrow> path \<Rightarrow> (string \<times> fs_tree) list \<Rightarrow> world \<Rightarrow> (exception + unit) \<times> world"
  where
  "scan_folder c fp RegularFile recursive w = (Inl NotADirectoryError, w)"
| "scan_folder c fp (Directory entries) recursive w =
     (case scan_files c fp (sort_key fst entries) w of
        (Inl e, w1) \<Rightarrow> (Inl e, w1)
      | (Inr u, w1) \<Rightarrow>
          if recursive then scan_subfolders c fp (sort_key fst entries) w1 else (Inr (), w1))"
| "scan_subfolders c fp [] w = (Inr (), w)"
| "scan_subfolders c fp ((n, t) # rest) w =
     (if is_file t then scan_subfolders c fp rest w
      else
        (case scan_folder c (fp @ [n]) t True w of
           (Inl e, w1) \<Rightarrow> (Inl e, w1)
         | (Inr u, w1) \<Rightarrow> scan_subfolders c fp rest w1))"
  by pat_completeness auto
termination
  by (relation "measure (\<lambda>x. case x of
          Inl (c, fp, t, recursive, w) \<Rightarrow> 2 * size t
        | Inr (c, fp, entries, w) \<Rightarrow> 2 * size_list (size_prod (\<lambda>n. 0) size) entries + 1)")
     (auto simp: size_list_sort_key)

text \<open>
  \<open>args.path.is_file()\<close> and \<open>args.path.is_dir()\<close> look the path up in the tree. The banner
  and the parsing of the arguments, which come before, are not modelled.
\<close>

fun lookup :: "fs_tree \<Rightarrow> path \<Rightarrow> fs_tree option" where
  "lookup t [] = Some t"
| "lookup RegularFile (n # ns) = None"
| "lookup (Directory entries) (n # ns) =
     (case map_of entries n of None \<Rightarrow> None | Some t \<Rightarrow> lookup t ns)"

definition main ::
  "codecs \<Rightarrow> fs_tree \<Rightarrow> path \<Rightarrow> bool \<Rightarrow> world \<Rightarrow> (exception + unit) \<times> world" where
  "main c root path recursive w =
     (case lookup root path of
        Some RegularFile \<Rightarrow> scan_file c path w
      | Some (Directory entries) \<Rightarrow> scan_folder c path (Directory entries) recursive w
      | None \<Rightarrow>
          (Inr (), emit (Printed (''Error: \"'' @ path_str path @ ''\" does not exist.'')) w))"

section \<open>The specification's notions\<close>

text \<open>
  What the specification speaks of, written from its words: big-endian integers, the header
  fields at \<open>0x48\<close> and \<open>0x4C\<close>, the flag field of record \<open>i\<close> and the records whose flag is
  not zero.
\<close>

definition be_uint :: "bytes \<Rightarrow> nat" where
  "be_uint bs = foldl (\<lambda>acc b. acc * 256 + unat b) 0 bs"

definition zones_header :: "bytes \<Rightarrow> nat \<times> nat" where
  "zones_header data = (be_uint (take 4 (drop 0x48 data)), be_uint (take 4 (drop 0x4C data)))"

definition flag_pos :: "nat \<Rightarrow> nat \<Rightarrow> nat" where
  "flag_pos zones_off i = zones_off + i * 24 + 10"

definition flag_value :: "bytes \<Rightarrow> nat \<Rightarrow> nat" where
  "flag_value data p = be_uint [data ! p, data ! Suc p]"

definition nonzero_records :: "bytes \<Rightarrow> nat \<Rightarrow> nat \<Rightarrow> nat list" where
  "nonzero_records data zones_off n =
     filter (\<lambda>i. flag_value data (flag_pos zones_off i) \<noteq> 0) [0..<n]"

definition field_bytes :: "nat \<Rightarrow> nat list \<Rightarrow> nat set" where
  "field_bytes zones_off idxs =
     (\<Union>i\<in>set idxs. {flag_pos zones_off i, Suc (flag_pos zones_off i)})"

definition zero_fields :: "nat set \<Rightarrow> bytes \<Rightarrow> bytes" where
  "zero_fields ps data = map (\<lambda>k. if k \<in> ps then 0 else data ! k) [0..<length data]"

text \<open>
  A slot is well formed when it holds the header and the flag field of each of its records;
  \<open>slot_fixes\<close> is the number of its records whose flag is not zero and \<open>slot_patched\<close> the
  slot with the flag bytes of those records cleared.
\<close>

definition slot_ok :: "bytes \<Rightarrow> bool" where
  "slot_ok data =
     (0x50 \<le> length data \<and>
      (case zones_header data of
         (z, s) \<Rightarrow> list_all (\<lambda>i. flag_pos z i + 2 \<le> length data) [0..<s div 24]))"

definition slot_fixes :: "bytes \<Rightarrow> nat" where
  "slot_fixes data = (case zones_header data of (z, s) \<Rightarrow> length (nonzero_records data z (s div 24)))"

definition slot_patched :: "bytes \<Rightarrow> bytes" where
  "slot_patched data =
     (case zones_header data of
        (z, s) \<Rightarrow> zero_fields (field_bytes z (nonzero_records data z (s div 24))) data)"

text \<open>
  The four slots of a course folder: which are present, the bytes of a slot, and whether a
  present slot is a well-formed byte string.
\<close>

definition slot_present :: "u8dict \<Rightarrow> nat \<Rightarrow> bool" where
  "slot_present course i = (map_of course (course_fn i) \<noteq> None)"

definition slot_data :: "u8dict \<Rightarrow> nat \<Rightarrow> bytes" where
  "slot_data course i =
     (case map_of course (course_fn i) of Some (U8File data) \<Rightarrow> data | _ \<Rightarrow> [])"

definition slot_well_formed :: "u8dict \<Rightarrow> nat \<Rightarrow> bool" where
  "slot_well_formed course i =
     (case map_of course (course_fn i) of
        None \<Rightarrow> True
      | Some (U8File data) \<Rightarrow> slot_ok data
      | Some (U8Folder d) \<Rightarrow> False)"

definition present_slots :: "u8dict \<Rightarrow> nat list" where
  "present_slots course = filter (slot_present course) [1..<5]"

text \<open>
  What a run of \<open>scan_file\<close> did: the events it added to the trace, and whether it left
  every file as it was and wrote nothing. \<open>decoded\<close> is the container that a file's
  content decodes to, if it sniffs as one and the decoders return; \<open>target_fixes\<close> adds
  the patched container and the two totals when the file is a target.
\<close>

definition high_nibble :: "byte \<Rightarrow> byte" where
  "high_nibble b = drop_bit 4 b"

definition emitted :: "world \<Rightarrow> world \<Rightarrow> event list" where
  "emitted w w' = drop (length (trace w)) (trace w')"

definition is_write :: "event \<Rightarrow> bool" where
  "is_write ev = (case ev of Wrote p data \<Rightarrow> True | _ \<Rightarrow> False)"

definition unmodified :: "world \<Rightarrow> world \<Rightarrow> bool" where
  "unmodified w w' = (files w' = files w \<and> filter is_write (emitted w w') = [])"

definition decoded :: "codecs \<Rightarrow> bytes \<Rightarrow> (bool \<times> u8dict) option" where
  "decoded c content =
     (case classify (take 4 content) of
        Inr NoCompression \<Rightarrow>
          (case decode_container c False content of Inr u8 \<Rightarrow> Some (False, u8) | Inl e \<Rightarrow> None)
      | Inr ProprietaryCompressed \<Rightarrow>
          (case decode_container c True content of Inr u8 \<Rightarrow> Some (True, u8) | Inl e \<Rightarrow> None)
      | _ \<Rightarrow> None)"

definition target_fixes :: "codecs \<Rightarrow> bytes \<Rightarrow> (bool \<times> u8dict \<times> nat \<times> nat) option" where
  "target_fixes c content =
     (case decoded c content of
        None \<Rightarrow> None
      | Some (is_compressed, u8) \<Rightarrow>
          if map fst u8 = [''course''] then
            (case fix_container u8 of
               Inr (u8', total_fixes, total_areas_fixed) \<Rightarrow>
                 Some (is_compressed, u8', total_fixes, total_areas_fixed)
             | Inl e \<Rightarrow> None)
          else None)"

text \<open>
  The totals as the specification states them: the number of records with a nonzero flag
  over the present slots, and the number of present slots that have such a record.
\<close>

definition spec_total_fixes :: "u8dict \<Rightarrow> nat" where
  "spec_total_fixes course =
     sum_list (map (\<lambda>i. slot_fixes (slot_data course i)) (present_slots course))"

definition spec_total_areas_fixed :: "u8dict \<Rightarrow> nat" where
  "spec_total_areas_fixed course =
     length (filter (\<lambda>i. 0 < slot_fixes (slot_data course i)) (present_slots course))"

text \<open>
  The order of a walk as the specification states it: the candidate files of the folder,
  sorted by name, and then, when the walk is recursive, the subfolders in the same manner,
  sorted by name. \<open>process_all\<close> runs the failure-isolating wrapper on each path of a list
  in turn, each run starting in the world the one before left.
\<close>

definition is_candidate :: "path \<Rightarrow> string \<times> fs_tree \<Rightarrow> bool" where
  "is_candidate fp entry = (snd entry = RegularFile \<and> does_path_look_like_level (fp @ [fst entry]))"

function walk_order :: "bool \<Rightarrow> path \<Rightarrow> fs_tree \<Rightarrow> path list"
  and subfolders_order :: "path \<Rightarrow> (string \<times> fs_tree) list \<Rightarrow> path list"
  where
  "walk_order recursive fp RegularFile = []"
| "walk_order recursive fp (Directory entries) =
     map (\<lambda>entry. fp @ [fst entry]) (filter (is_candidate fp) (sort_key fst entries))
       @ (if recursive then subfolders_order fp (sort_key fst entries) else [])"
| "subfolders_order fp [] = []"
| "subfolders_order fp ((n, t) # rest) = walk_order True (fp @ [n]) t @ subfolders_order fp rest"
  by pat_completeness auto
termination
  by (relation "measure (\<lambda>x. case x of
          Inl (recursive, fp, t) \<Rightarrow> 2 * size t
        | Inr (fp, entries) \<Rightarrow> 2 * size_list (size_prod (\<lambda>n. 0) size) entries + 1)")
     (auto simp: size_list_sort_key)

definition process_all :: "codecs \<Rightarrow> path list \<Rightarrow> world \<Rightarrow> world" where
  "process_all c paths w = fold (\<lambda>p w. snd (scan_file_safe c p w)) paths w"

text \<open>Sample slots: 80 bytes, the header in the last eight.\<close>

definition example_slot :: bytes where
  "example_slot = (replicate 80 0)[11 := 1, 0x4F := 50]"

definition truncated_slot :: bytes where
  "truncated_slot = (replicate 80 0)[0x4F := 96]"

text \<open>A sample course folder with two of the four slots, and what patching makes of it.\<close>

definition patched_slot :: bytes where
  "patched_slot = (replicate 80 0)[0x4F := 50]"

definition example_course :: u8dict where
  "example_course = [(''course1.bin'', U8File example_slot), (''course3.bin'', U8File example_slot)]"

definition patched_course :: u8dict where
  "patched_course = [(''course1.bin'', U8File patched_slot), (''course3.bin'', U8File patched_slot)]"

text \<open>
  Sample codecs, defined on three containers only, and a world with three files: a
  container whose flags are set, a file that starts with \<open>0x41\<close>, and a container with
  a slot whose header points outside it.
\<close>

definition container_magic :: bytes where
  "container_magic = [0x55, 0xAA, 0x38, 0x2D]"

definition example_container :: u8dict where
  "example_container = [(''course'', U8Folder example_course)]"

definition patched_container :: u8dict where
  "patched_container = [(''course'', U8Folder patched_course)]"

definition broken_container :: u8dict where
  "broken_container = [(''course'', U8Folder [(''course2.bin'', U8File truncated_slot)])]"

definition toy_codecs :: codecs where
  "toy_codecs =
     \<lparr>u8_load = (\<lambda>data.
          if data = container_magic @ [1] then Inr example_container
          else if data = container_magic @ [2] then Inr patched_container
          else if data = container_magic @ [3] then Inr broken_container
          else Inl (LibraryError ''u8'')),
      u8_save = (\<lambda>u8.
          if u8 = example_container then Inr (container_magic @ [1])
          else if u8 = patched_container then Inr (container_magic @ [2])
          else Inl (LibraryError ''u8'')),
      Decompress11LZS = (\<lambda>data.
          case data of [] \<Rightarrow> Inl (LibraryError ''lz'')
          | b # rest \<Rightarrow> if b = 0x11 then Inr rest else Inl (LibraryError ''lz'')),
      Compress11LZS = (\<lambda>data. Inr (0x11 # data))\<rparr>"

definition example_world :: world where
  "example_world =
     \<lparr>files = [[''a.arc''] \<mapsto> container_magic @ [1],
               [''b.arc''] \<mapsto> [0x41, 0, 0, 0, 7],
               [''c.arc''] \<mapsto> container_magic @ [3]],
      trace = []\<rparr>"

text \<open>
  The directory of the specification's scenario, listed in an order that is not the sorted
  one.
\<close>

definition scenario_tree :: fs_tree where
  "scenario_tree =
     Directory [(''sub'', Directory [(''d.arc'', RegularFile)]), (''c.txt'', RegularFile),
                (''b.ARC.LZ'', RegularFile), (''a.arc'', RegularFile)]"

text \<open>
  A folder for the walk: its first candidate in sorted order is a container with a broken
  slot, its second one a file that starts with \<open>0x41\<close>.
\<close>

definition walk_tree :: fs_tree where
  "walk_tree =
     Directory [(''1.arc'', RegularFile), (''notes.txt'', RegularFile), (''0.arc'', RegularFile)]"

definition walk_world :: world where
  "walk_world =
     \<lparr>files = [[''0.arc''] \<mapsto> container_magic @ [3], [''1.arc''] \<mapsto> [0x41, 0, 0, 0, 7]],
      trace = []\<rparr>"

text \<open>
  For running the patch twice: a slot is stable when patching it leaves the two header
  fields at \<open>0x48\<close> and \<open>0x4C\<close> as they were; the codecs round-trip when loading what was
  saved gives the container back, what was saved starts with the container magic, and
  decompressing what was compressed gives the bytes back, the compressed bytes starting
  with \<open>0x11\<close>; and a file's slots are stable when every present slot of the container it
  decodes to is.
\<close>

definition slot_stable :: "bytes \<Rightarrow> bool" where
  "slot_stable b = (zones_header (slot_patched b) = zones_header b)"

definition codec_round_trip :: "codecs \<Rightarrow> bool" where
  "codec_round_trip c =
     ((\<forall>u8 data. u8_save c u8 = Inr data \<longrightarrow>
          u8_load c data = Inr u8 \<and> take 4 data = container_magic)
      \<and> (\<forall>data z. Compress11LZS c data = Inr z \<longrightarrow>
          Decompress11LZS c z = Inr data \<and> z \<noteq> [] \<and> z ! 0 = 0x11))"

definition stable_slots :: "codecs \<Rightarrow> bytes \<Rightarrow> bool" where
  "stable_slots c content =
     (case decoded c content of
        None \<Rightarrow> True
      | Some (is_compressed, u8) \<Rightarrow>
          (case map_of u8 ''course'' of
             Some (U8Folder course) \<Rightarrow>
               list_all (\<lambda>i. slot_stable (slot_data course i)) (present_slots course)
           | _ \<Rightarrow> True))"

text \<open>
  A slot whose record array overlaps its own header, what one and two patches make of it,
  and a slot whose record array starts after the header.
\<close>

definition overlapping_slot :: bytes where
  "overlapping_slot = (replicate 80 0)[11 := 1, 0x4B := 0x40, 0x4F := 24]"

definition overlapping_once :: bytes where
  "overlapping_once = (replicate 80 0)[11 := 1, 0x4F := 24]"

definition overlapping_twice :: bytes where
  "overlapping_twice = (replicate 80 0)[0x4F := 24]"

definition far_slot :: bytes where
  "far_slot = (replicate 128 0)[0x4B := 0x50, 0x4F := 24, 91 := 1]"

section \<open>Properties of fix\_course\_file\<close>

lemma take4_drop:
  "n + 4 \<le> length xs \<Longrightarrow> take 4 (drop n xs) = [xs ! n, xs ! (n + 1), xs ! (n + 2), xs ! (n + 3)]"
proof -
  assume len: "n + 4 \<le> length xs"
  have "drop n xs = xs ! n # drop (Suc n) xs"
    using len by (intro Cons_nth_drop_Suc[symmetric]) simp
  also have "drop (Suc n) xs = xs ! Suc n # drop (Suc (Suc n)) xs"
    using len by (intro Cons_nth_drop_Suc[symmetric]) simp
  also have "drop (Suc (Suc n)) xs = xs ! Suc (Suc n) # drop (Suc (Suc (Suc n))) xs"
    using len by (intro Cons_nth_drop_Suc[symmetric]) simp
  also have "drop (Suc (Suc (Suc n))) xs = xs ! Suc (Suc (Suc n)) # drop (Suc (Suc (Suc (Suc n)))) xs"
    using len by (intro Cons_nth_drop_Suc[symmetric]) simp
  finally show ?thesis by (simp add: numeral_eq_Suc)
qed

lemma unpack_header:
  "0x50 \<le> length data \<Longrightarrow> unpack_from_II data 0x48 = Inr (zones_header data)"
  by (simp add: unpack_from_II_def zones_header_def be_uint_def take4_drop)

lemma unpack_header_short:
  "length data < 0x50 \<Longrightarrow> unpack_from_II data 0x48 = Inl StructError"
  by (simp add: unpack_from_II_def)

lemma flag_value_zero: "flag_value data p = 0 \<longleftrightarrow> data ! p = 0 \<and> data ! Suc p = 0"
  by (simp add: flag_value_def be_uint_def unat_eq_0)

lemma unpack_flag:
  "unpack_from_H data p = (if p + 2 \<le> length data then Inr (flag_value data p) else Inl StructError)"
  by (simp add: unpack_from_H_def flag_value_def be_uint_def)

lemma pack_zero:
  "pack_into_H data p 0 = (if p + 2 \<le> length data then Inr (data[p := 0, Suc p := 0]) else Inl StructError)"
  by (simp add: pack_into_H_def)

lemma flag_pos_apart:
  "i \<noteq> j \<Longrightarrow> flag_pos z i \<noteq> flag_pos z j \<and> flag_pos z i \<noteq> Suc (flag_pos z j)
     \<and> Suc (flag_pos z i) \<noteq> flag_pos z j"
  by (auto simp: flag_pos_def)

lemma fix_loop_step:
  "fix_loop z (i # rest) data n =
     (if flag_pos z i + 2 \<le> length data then
        if flag_value data (flag_pos z i) \<noteq> 0
        then fix_loop z rest (data[flag_pos z i := 0, Suc (flag_pos z i) := 0]) (Suc n)
        else fix_loop z rest data n
      else Inl StructError)"
  by (simp only: fix_loop.simps Let_def flag_pos_def[symmetric] unpack_flag pack_zero) simp

lemma fix_loop_all_fields:
  "distinct idxs \<Longrightarrow> \<forall>i\<in>set idxs. flag_pos z i + 2 \<le> length data \<Longrightarrow>
   fix_loop z idxs data n =
     Inr (zero_fields (field_bytes z idxs) data,
          n + length (filter (\<lambda>i. flag_value data (flag_pos z i) \<noteq> 0) idxs))"
proof (induction idxs arbitrary: data n)
  case Nil
  show ?case by (simp add: zero_fields_def field_bytes_def map_nth)
next
  case (Cons i rest)
  let ?p = "flag_pos z i"
  let ?d = "data[?p := 0, Suc ?p := 0]"
  have inb: "?p + 2 \<le> length data" using Cons.prems(2) by simp
  have same: "flag_value ?d (flag_pos z j) = flag_value data (flag_pos z j)"
    if "j \<in> set rest" for j
  proof -
    have "j \<noteq> i" using that Cons.prems(1) by auto
    from flag_pos_apart[OF this, of z] show ?thesis
      by (simp add: flag_value_def nth_list_update)
  qed
  have filt: "filter (\<lambda>j. flag_value ?d (flag_pos z j) \<noteq> 0) rest
            = filter (\<lambda>j. flag_value data (flag_pos z j) \<noteq> 0) rest"
    by (rule filter_cong[OF refl]) (simp only: same)
  show ?case
  proof (cases "flag_value data ?p = 0")
    case True
    have "fix_loop z (i # rest) data n = fix_loop z rest data n"
      using True inb by (subst fix_loop_step) simp
    also have "\<dots> = Inr (zero_fields (field_bytes z rest) data,
          n + length (filter (\<lambda>i. flag_value data (flag_pos z i) \<noteq> 0) rest))"
      using Cons.prems by (intro Cons.IH) auto
    also have "zero_fields (field_bytes z rest) data = zero_fields (field_bytes z (i # rest)) data"
      using True inb unfolding flag_value_zero
      by (auto simp: zero_fields_def field_bytes_def)
    finally show ?thesis using True by simp
  next
    case False
    have "fix_loop z (i # rest) data n = fix_loop z rest ?d (Suc n)"
      using False inb by (subst fix_loop_step) simp
    also have "\<dots> = Inr (zero_fields (field_bytes z rest) ?d,
          Suc n + length (filter (\<lambda>i. flag_value ?d (flag_pos z i) \<noteq> 0) rest))"
      using Cons.prems by (intro Cons.IH) auto
    also have "zero_fields (field_bytes z rest) ?d = zero_fields (field_bytes z (i # rest)) data"
      using inb by (auto simp: zero_fields_def field_bytes_def nth_list_update)
    finally show ?thesis unfolding filt using False by simp
  qed
qed

lemma zero_fields_nonzero_only:
  "zero_fields (field_bytes z (filter (\<lambda>i. flag_value data (flag_pos z i) \<noteq> 0) idxs)) data
     = zero_fields (field_bytes z idxs) data"
  by (auto simp: zero_fields_def field_bytes_def flag_value_zero)

lemma fix_loop_out_of_range:
  "\<exists>i\<in>set idxs. length data < flag_pos z i + 2 \<Longrightarrow> fix_loop z idxs data n = Inl StructError"
proof (induction idxs arbitrary: data n)
  case Nil
  then show ?case by simp
next
  case (Cons i rest)
  show ?case
  proof (cases "flag_pos z i + 2 \<le> length data")
    case False
    then show ?thesis by (subst fix_loop_step) simp
  next
    case True
    with Cons.prems have ex: "\<exists>j\<in>set rest. length data < flag_pos z j + 2" by auto
    then have "fix_loop z rest data n = Inl StructError"
      and "fix_loop z rest (data[flag_pos z i := 0, Suc (flag_pos z i) := 0]) (Suc n) = Inl StructError"
      by (auto intro!: Cons.IH)
    then show ?thesis using True by (subst fix_loop_step) simp
  qed
qed

lemma fix_course_file_cases:
  "fix_course_file data =
     (if length data < 0x50 then Inl StructError
      else (case zones_header data of (z, s) \<Rightarrow>
        (if (\<forall>i<(s div 24). flag_pos z i + 2 \<le> length data)
         then Inr (zero_fields (field_bytes z (nonzero_records data z (s div 24))) data,
                  length (nonzero_records data z (s div 24)))
         else Inl StructError)))"
proof (cases "length data < 0x50")
  case True
  then show ?thesis by (simp add: fix_course_file_def unpack_header_short)
next
  case False
  obtain z s where h: "zones_header data = (z, s)" by (cases "zones_header data")
  have u: "unpack_from_II data 0x48 = Inr (z, s)" using False h by (simp add: unpack_header)
  show ?thesis
  proof (cases "\<forall>i<(s div 24). flag_pos z i + 2 \<le> length data")
    case True
    then have "fix_loop z [0..<s div 24] data 0 =
        Inr (zero_fields (field_bytes z [0..<s div 24]) data,
             0 + length (filter (\<lambda>i. flag_value data (flag_pos z i) \<noteq> 0) [0..<s div 24]))"
      by (intro fix_loop_all_fields) auto
    then have "fix_loop z [0..<s div 24] data 0 =
        Inr (zero_fields (field_bytes z (nonzero_records data z (s div 24))) data,
             length (nonzero_records data z (s div 24)))"
      unfolding nonzero_records_def zero_fields_nonzero_only by simp
    then show ?thesis using True False h u
      by (simp add: fix_course_file_def)
  next
    case oob: False
    then have "fix_loop z [0..<s div 24] data 0 = Inl StructError"
      by (intro fix_loop_out_of_range) (auto simp: not_le)
    then show ?thesis using oob False h u by (simp add: fix_course_file_def)
  qed
qed

lemma fix_course_file_eq:
  "fix_course_file data =
     (if slot_ok data then Inr (slot_patched data, slot_fixes data) else Inl StructError)"
  by (subst fix_course_file_cases)
     (auto simp: slot_ok_def slot_patched_def slot_fixes_def list_all_iff split: prod.splits)

lemma length_zero_fields [simp]: "length (zero_fields ps data) = length data"
  by (simp add: zero_fields_def)

lemma nth_zero_fields:
  "k < length data \<Longrightarrow> zero_fields ps data ! k = (if k \<in> ps then 0 else data ! k)"
  by (simp add: zero_fields_def)

lemma flag_value_patched:
  assumes "i < n" "flag_pos z i + 2 \<le> length data"
  shows "flag_value (zero_fields (field_bytes z (nonzero_records data z n)) data) (flag_pos z i) = 0"
proof (cases "flag_value data (flag_pos z i) = 0")
  case True
  then show ?thesis using assms
    by (auto simp: flag_value_zero nth_zero_fields)
next
  case False
  then have "i \<in> set (nonzero_records data z n)"
    using assms by (simp add: nonzero_records_def)
  then have "flag_pos z i \<in> field_bytes z (nonzero_records data z n)"
    and "Suc (flag_pos z i) \<in> field_bytes z (nonzero_records data z n)"
    by (auto simp: field_bytes_def)
  then show ?thesis using assms by (simp add: flag_value_zero nth_zero_fields)
qed

lemma zero_fields_empty [simp]: "zero_fields {} data = data"
  by (simp add: zero_fields_def map_nth)

lemma fix_course_file_again:
  assumes "fix_course_file b = Inr (b', n)" and "zones_header b' = zones_header b"
  shows "fix_course_file b' = Inr (b', 0)"
proof -
  obtain z s where h: "zones_header b = (z, s)" by (cases "zones_header b")
  from assms(1) have ok: "slot_ok b" and b': "b' = slot_patched b"
    by (auto simp: fix_course_file_eq split: if_splits)
  have len: "length b' = length b" using b' h by (simp add: slot_patched_def)
  have inb: "\<forall>i<(s div 24). flag_pos z i + 2 \<le> length b"
    using ok h by (simp add: slot_ok_def list_all_iff)
  have "flag_value b' (flag_pos z i) = 0" if "i < s div 24" for i
    using that inb b' h by (simp add: slot_patched_def flag_value_patched)
  then have nz: "nonzero_records b' z (s div 24) = []"
    by (simp add: nonzero_records_def filter_empty_conv)
  have ok': "slot_ok b'" using ok len assms(2) h by (simp add: slot_ok_def)
  show ?thesis using ok' nz assms(2) h
    by (simp add: fix_course_file_eq slot_patched_def slot_fixes_def field_bytes_def)
qed

lemma fix_loop_st_eq:
  "r < length h \<Longrightarrow>
   fix_loop_st z idxs h r n =
     (case fix_loop z idxs (h ! r) n of Inl e \<Rightarrow> Inl e | Inr (d, m) \<Rightarrow> Inr (h[r := d], m))"
proof (induction idxs arbitrary: h n)
  case Nil
  then show ?case by simp
next
  case (Cons i rest)
  show ?case
    using Cons.prems
    by (auto simp: Let_def Cons.IH split: sum.splits)
qed

lemma fix_course_file_st_eq:
  "fix_course_file_st h arg =
     (case fix_course_file (h ! arg) of
        Inl e \<Rightarrow> Inl e
      | Inr (d, m) \<Rightarrow> Inr (h @ [d], length h, m))"
  by (auto simp: fix_course_file_st_def fix_course_file_def Let_def fix_loop_st_eq
           split: sum.splits prod.splits)

lemma example_slot_header: "zones_header example_slot = (0, 50)"
  by code_simp

lemma example_slot_patched:
  "zero_fields (field_bytes 0 (nonzero_records example_slot 0 (50 div 24))) example_slot
     = (replicate 80 0)[0x4F := 50]"
  by code_simp

lemma example_slot_count: "length (nonzero_records example_slot 0 (50 div 24)) = 1"
  by code_simp

lemma example_slot_in_range: "\<forall>i<(50 div 24). flag_pos 0 i + 2 \<le> length example_slot"
  by (simp add: flag_pos_def example_slot_def)

lemma example_slot_result:
  "fix_course_file example_slot = Inr ((replicate 80 0)[0x4F := 50], 1)"
proof -
  have "slot_ok example_slot" by code_simp
  moreover have "slot_patched example_slot = (replicate 80 0)[0x4F := 50]" by code_simp
  moreover have "slot_fixes example_slot = 1" by code_simp
  ultimately show ?thesis by (simp add: fix_course_file_eq)
qed

lemma truncated_slot_header: "zones_header truncated_slot = (0, 96)"
  by code_simp

text \<open>
  Claim C1, as amended. For every slot of at least \<open>0x50\<close> bytes in which the flag field of
  each of the \<open>zones_size div 24\<close> records lies inside the buffer, \<open>fix_course_file\<close> reads
  the big-endian offset at \<open>0x48\<close> and length at \<open>0x4C\<close>, goes through exactly
  \<open>zones_size div 24\<close> records whatever the remainder of the division, returns the input with
  the two flag bytes of exactly the records whose flag was not zero set to zero, and counts
  those records.
\<close>

theorem fix_course_file_patches_records:
  assumes "0x50 \<le> length data"
    and "zones_header data = (zones_off, zones_size)"
    and "\<forall>i<(zones_size div 24). flag_pos zones_off i + 2 \<le> length data"
  shows "unpack_from_II data 0x48 = Inr (zones_off, zones_size)
       \<and> fix_course_file data =
           Inr (zero_fields
                  (field_bytes zones_off (nonzero_records data zones_off (zones_size div 24))) data,
                length (nonzero_records data zones_off (zones_size div 24)))"
proof
  show "unpack_from_II data 0x48 = Inr (zones_off, zones_size)"
    using assms(1,2) by (simp add: unpack_header)
  show "fix_course_file data =
           Inr (zero_fields
                  (field_bytes zones_off (nonzero_records data zones_off (zones_size div 24))) data,
                length (nonzero_records data zones_off (zones_size div 24)))"
    using assms by (subst fix_course_file_cases) simp
qed

theorem fix_course_file_patches_records_witness:
  "fix_course_file example_slot = Inr ((replicate 80 0)[0x4F := 50], 1)"
proof -
  have len: "0x50 \<le> length example_slot" by (simp add: example_slot_def)
  show ?thesis
    using fix_course_file_patches_records [OF len example_slot_header example_slot_in_range]
    by (simp only: example_slot_patched example_slot_count)
qed

text \<open>
  The claim as stated, for every slot of at least \<open>0x50\<close> bytes, fails: a header that
  announces four records in an 80-byte slot makes the fourth read raise \<open>struct.error\<close>.
\<close>

theorem fix_course_file_truncated_counterexample:
  "0x50 \<le> length truncated_slot \<and> fix_course_file truncated_slot = Inl StructError"
proof -
  have "\<not> (\<forall>i<(96 div 24). flag_pos 0 i + 2 \<le> length truncated_slot)"
    by (auto simp: flag_pos_def truncated_slot_def intro!: exI[of _ 3])
  then show ?thesis
    by (subst fix_course_file_cases) (simp add: truncated_slot_header, simp add: truncated_slot_def)
qed

text \<open>
  Claim C2. Whenever \<open>fix_course_file\<close> returns, the buffer it returns is a new one
  (\<open>bytearray(data)\<close> is a copy): every buffer that existed before the call, the argument
  among them, still holds what it held. The result has the length of the input, agrees with
  the input at every index outside the two flag bytes of the records whose flag was not
  zero, and the flag of every record that the input's header describes is zero in it.
\<close>

theorem fix_course_file_frame:
  assumes "arg < length h"
    and "fix_course_file_st h arg = Inr (h', out, num_fixes)"
    and "zones_header (h ! arg) = (zones_off, zones_size)"
  shows "fix_course_file (h ! arg) = Inr (h' ! out, num_fixes)
       \<and> out = length h \<and> take (length h) h' = h \<and> h' ! arg = h ! arg
       \<and> length (h' ! out) = length (h ! arg)
       \<and> (\<forall>k<length (h ! arg).
             k \<notin> field_bytes zones_off (nonzero_records (h ! arg) zones_off (zones_size div 24))
             \<longrightarrow> h' ! out ! k = h ! arg ! k)
       \<and> (\<forall>i<(zones_size div 24). flag_value (h' ! out) (flag_pos zones_off i) = 0)"
proof -
  let ?b = "h ! arg"
  from assms(2) obtain d where run: "fix_course_file ?b = Inr (d, num_fixes)"
    and h': "h' = h @ [d]" and out: "out = length h"
    by (auto simp: fix_course_file_st_eq split: sum.splits)
  from run have ok: "slot_ok ?b" and d: "d = slot_patched ?b"
    by (auto simp: fix_course_file_eq split: if_splits)
  have dz: "d = zero_fields
      (field_bytes zones_off (nonzero_records ?b zones_off (zones_size div 24))) ?b"
    using d assms(3) by (simp add: slot_patched_def)
  have inb: "\<forall>i<(zones_size div 24). flag_pos zones_off i + 2 \<le> length ?b"
    using ok assms(3) by (simp add: slot_ok_def list_all_iff)
  have 1: "fix_course_file ?b = Inr (h' ! out, num_fixes)"
    using run h' out by simp
  have 2: "take (length h) h' = h" "h' ! arg = h ! arg"
    using h' assms(1) by (simp_all add: nth_append)
  have 3: "length (h' ! out) = length ?b"
    using h' out dz by simp
  have 4: "\<forall>k<length ?b.
             k \<notin> field_bytes zones_off (nonzero_records ?b zones_off (zones_size div 24))
             \<longrightarrow> h' ! out ! k = ?b ! k"
    using h' out dz by (simp add: nth_zero_fields)
  have 5: "\<forall>i<(zones_size div 24). flag_value (h' ! out) (flag_pos zones_off i) = 0"
    using h' out dz inb by (simp add: flag_value_patched)
  from 1 out 2 3 4 5 show ?thesis by blast
qed

theorem fix_course_file_frame_witness:
  "fix_course_file_st [example_slot] 0 = Inr ([example_slot, (replicate 80 0)[0x4F := 50]], 1, 1)
   \<and> [example_slot, (replicate 80 0)[0x4F := 50]] ! 0 = example_slot
   \<and> length ((replicate 80 0)[0x4F := 50] :: bytes) = length example_slot
   \<and> flag_value ((replicate 80 0)[0x4F := 50]) (flag_pos 0 0) = 0"
proof -
  have run: "fix_course_file_st [example_slot] 0
      = Inr ([example_slot, (replicate 80 0)[0x4F := 50]], 1, 1)"
    by (simp add: fix_course_file_st_eq example_slot_result)
  have hd: "zones_header ([example_slot] ! 0) = (0, 50)"
    by (simp add: example_slot_header)
  from fix_course_file_frame [OF _ run hd] run show ?thesis
    by simp
qed

section \<open>Properties of the area loop\<close>

lemma course_fn_distinct: "distinct (map course_fn [1..<5])"
  by code_simp

lemma slot_ok_empty: "\<not> slot_ok []"
  by (simp add: slot_ok_def)

lemma fix_course_entry_eq:
  "fix_course_entry v =
     (case v of
        U8File data \<Rightarrow> if slot_ok data then Inr (slot_patched data, slot_fixes data) else Inl StructError
      | U8Folder d \<Rightarrow> if d = [] then Inl StructError else Inl TypeError)"
  by (simp add: fix_course_entry_def fix_course_file_eq slot_ok_empty split: u8node.splits)

lemma map_of_update_other:
  "k \<noteq> k' \<Longrightarrow> map_of (AList.update k v al) k' = map_of al k'"
  by (simp add: update_conv')

lemma map_fst_update_present:
  "map_of al k \<noteq> None \<Longrightarrow> map fst (AList.update k v al) = map fst al"
  by (induction al) auto

lemma fix_areas_loop_raises:
  assumes "distinct (map course_fn idxs)" "i \<in> set idxs" "\<not> slot_well_formed course i"
  shows "\<exists>e. fix_areas_loop idxs course tf ta = Inl e"
  using assms
proof (induction idxs arbitrary: course tf ta)
  case Nil
  then show ?case by simp
next
  case (Cons j rest)
  show ?case
  proof (cases "j = i")
    case True
    with Cons.prems(3) show ?thesis
      by (auto simp: slot_well_formed_def fix_course_entry_eq split: option.splits u8node.splits)
  next
    case False
    then have i: "i \<in> set rest" and ne: "course_fn j \<noteq> course_fn i"
      using Cons.prems(1,2) by auto
    have d: "distinct (map course_fn rest)" using Cons.prems(1) by simp
    have keep: "\<not> slot_well_formed (AList.update (course_fn j) v course) i" for v
      using Cons.prems(3) ne by (simp add: slot_well_formed_def map_of_update_other)
    show ?thesis
      using Cons.IH[OF d i Cons.prems(3)] Cons.IH[OF d i keep]
      by (auto split: option.splits sum.splits)
  qed
qed

lemma fix_areas_loop_returns:
  assumes "distinct (map course_fn idxs)" "\<forall>i\<in>set idxs. slot_well_formed course i"
  shows "\<exists>course'.
      fix_areas_loop idxs course tf ta =
        Inr (course',
             tf + sum_list (map (\<lambda>i. slot_fixes (slot_data course i)) (filter (slot_present course) idxs)),
             ta + length (filter (\<lambda>i. 0 < slot_fixes (slot_data course i)) (filter (slot_present course) idxs)))
      \<and> map fst course' = map fst course
      \<and> (\<forall>i\<in>set idxs. map_of course' (course_fn i) =
            (if slot_present course i \<and> 0 < slot_fixes (slot_data course i)
             then Some (U8File (slot_patched (slot_data course i)))
             else map_of course (course_fn i)))
      \<and> (\<forall>k. k \<notin> course_fn ` set idxs \<longrightarrow> map_of course' k = map_of course k)"
  using assms
proof (induction idxs arbitrary: course tf ta)
  case Nil
  then show ?case by simp
next
  case (Cons j rest)
  have d: "distinct (map course_fn rest)" and fresh: "course_fn j \<notin> course_fn ` set rest"
    using Cons.prems(1) by auto
  have wf: "\<forall>i\<in>set rest. slot_well_formed course i" and wfj: "slot_well_formed course j"
    using Cons.prems(2) by auto
  show ?case
  proof (cases "map_of course (course_fn j)")
    case None
    from Cons.IH[OF d wf, of tf ta] obtain course' where
      IH: "fix_areas_loop rest course tf ta =
        Inr (course',
             tf + sum_list (map (\<lambda>i. slot_fixes (slot_data course i)) (filter (slot_present course) rest)),
             ta + length (filter (\<lambda>i. 0 < slot_fixes (slot_data course i)) (filter (slot_present course) rest)))"
        "map fst course' = map fst course"
        "\<forall>i\<in>set rest. map_of course' (course_fn i) =
            (if slot_present course i \<and> 0 < slot_fixes (slot_data course i)
             then Some (U8File (slot_patched (slot_data course i)))
             else map_of course (course_fn i))"
        "\<forall>k. k \<notin> course_fn ` set rest \<longrightarrow> map_of course' k = map_of course k"
      by blast
    have j: "map_of course' (course_fn j) = map_of course (course_fn j)"
      using IH(4) fresh by blast
    have npj: "\<not> slot_present course j"
      using None by (simp add: slot_present_def)
    show ?thesis
      using None IH j npj by auto
  next
    case (Some v)
    with wfj obtain data where v: "v = U8File data" and ok: "slot_ok data"
      by (auto simp: slot_well_formed_def split: u8node.splits)
    have sd: "slot_data course j = data" and pj: "slot_present course j"
      using Some v by (simp_all add: slot_data_def slot_present_def)
    show ?thesis
    proof (cases "0 < slot_fixes data")
      case False
      from Cons.IH[OF d wf, of tf ta] obtain course' where
        IH: "fix_areas_loop rest course tf ta =
          Inr (course',
               tf + sum_list (map (\<lambda>i. slot_fixes (slot_data course i)) (filter (slot_present course) rest)),
               ta + length (filter (\<lambda>i. 0 < slot_fixes (slot_data course i)) (filter (slot_present course) rest)))"
          "map fst course' = map fst course"
          "\<forall>i\<in>set rest. map_of course' (course_fn i) =
              (if slot_present course i \<and> 0 < slot_fixes (slot_data course i)
               then Some (U8File (slot_patched (slot_data course i)))
               else map_of course (course_fn i))"
          "\<forall>k. k \<notin> course_fn ` set rest \<longrightarrow> map_of course' k = map_of course k"
        by blast
      have j: "map_of course' (course_fn j) = map_of course (course_fn j)"
        using IH(4) fresh by blast
      show ?thesis
        using Some v ok False IH j sd pj by (auto simp: fix_course_entry_eq)
    next
      case True
      let ?c1 = "AList.update (course_fn j) (U8File (slot_patched data)) course"
      have same: "map_of ?c1 (course_fn i) = map_of course (course_fn i)" if "i \<in> set rest" for i
        using that fresh by (intro map_of_update_other) auto
      have sp: "slot_present ?c1 i = slot_present course i"
        and sdd: "slot_data ?c1 i = slot_data course i"
        and swf: "slot_well_formed ?c1 i = slot_well_formed course i" if "i \<in> set rest" for i
        using same[OF that] by (simp_all add: slot_present_def slot_data_def slot_well_formed_def)
      have wf1: "\<forall>i\<in>set rest. slot_well_formed ?c1 i" using wf swf by simp
      have f1: "filter (slot_present ?c1) rest = filter (slot_present course) rest"
        by (rule filter_cong[OF refl]) (simp add: sp)
      have s1: "map (\<lambda>i. slot_fixes (slot_data ?c1 i)) (filter (slot_present course) rest)
              = map (\<lambda>i. slot_fixes (slot_data course i)) (filter (slot_present course) rest)"
        by (rule map_cong[OF refl]) (simp add: sdd)
      have l1: "filter (\<lambda>i. 0 < slot_fixes (slot_data ?c1 i)) (filter (slot_present course) rest)
              = filter (\<lambda>i. 0 < slot_fixes (slot_data course i)) (filter (slot_present course) rest)"
        by (rule filter_cong[OF refl]) (simp add: sdd)
      from Cons.IH[OF d wf1, of "tf + slot_fixes data" "ta + 1"] obtain course' where
        IH: "fix_areas_loop rest ?c1 (tf + slot_fixes data) (ta + 1) =
          Inr (course',
               tf + slot_fixes data + sum_list (map (\<lambda>i. slot_fixes (slot_data course i)) (filter (slot_present course) rest)),
               ta + 1 + length (filter (\<lambda>i. 0 < slot_fixes (slot_data course i)) (filter (slot_present course) rest)))"
          "map fst course' = map fst ?c1"
          "\<forall>i\<in>set rest. map_of course' (course_fn i) =
              (if slot_present ?c1 i \<and> 0 < slot_fixes (slot_data ?c1 i)
               then Some (U8File (slot_patched (slot_data ?c1 i)))
               else map_of ?c1 (course_fn i))"
          "\<forall>k. k \<notin> course_fn ` set rest \<longrightarrow> map_of course' k = map_of ?c1 k"
        unfolding f1 s1 l1 by blast
      have keys: "map fst course' = map fst course"
        using IH(2) Some by (simp add: map_fst_update_present)
      have j: "map_of course' (course_fn j) = Some (U8File (slot_patched data))"
        using IH(4) fresh by (simp add: update_conv')
      have others: "\<forall>k. k \<notin> course_fn ` set (j # rest) \<longrightarrow> map_of course' k = map_of course k"
        using IH(4) by (auto simp: update_conv')
      have rest: "\<forall>i\<in>set rest. map_of course' (course_fn i) =
              (if slot_present course i \<and> 0 < slot_fixes (slot_data course i)
               then Some (U8File (slot_patched (slot_data course i)))
               else map_of course (course_fn i))"
        using IH(3) sp sdd same by simp
      have run: "fix_areas_loop (j # rest) course tf ta
          = fix_areas_loop rest ?c1 (tf + slot_fixes data) (ta + 1)"
        using Some v ok True by (simp add: fix_course_entry_eq)
      show ?thesis
        unfolding run IH(1)
        using keys j others rest sd pj True by auto
    qed
  qed
qed

section \<open>Properties of scan\_file\<close>

lemma trace_emit [simp]: "trace (emit ev w) = trace w @ [ev]"
  by (simp add: emit_def)

lemma files_emit [simp]: "files (emit ev w) = files w"
  by (simp add: emit_def)

lemma emit_eq: "emit ev w = w\<lparr>trace := trace w @ [ev]\<rparr>"
  by (simp add: emit_def)

lemma scan_container_outcome:
  assumes "files w fp = Some content"
  shows "scan_container c fp is_compressed w =
    (case decode_container c is_compressed content of
       Inl e \<Rightarrow> (Inl e, w\<lparr>trace := trace w @ [ReadBytes fp]\<rparr>)
     | Inr u8 \<Rightarrow>
         if map fst u8 \<noteq> [''course''] then (Inr (), w\<lparr>trace := trace w @ [ReadBytes fp]\<rparr>)
         else
           (case fix_container u8 of
              Inl e \<Rightarrow> (Inl e, w\<lparr>trace := trace w @ [ReadBytes fp]\<rparr>)
            | Inr (u8', total_fixes, total_areas_fixed) \<Rightarrow>
                if 0 < total_fixes then
                  (case encode_container c is_compressed u8' of
                     Inl e \<Rightarrow>
                       (Inl e, w\<lparr>trace := trace w @ [ReadBytes fp,
                          Printed (summary_line total_fixes total_areas_fixed fp)]\<rparr>)
                   | Inr data' \<Rightarrow>
                       (Inr (), w\<lparr>files := (files w)(fp \<mapsto> data'),
                          trace := trace w @ [ReadBytes fp,
                            Printed (summary_line total_fixes total_areas_fixed fp),
                            Wrote fp data']\<rparr>))
                else (Inr (), w\<lparr>trace := trace w @ [ReadBytes fp]\<rparr>)))"
  using assms
  by (simp add: scan_container_def read_bytes_def write_bytes_def emit_eq Let_def
           split: sum.splits prod.splits)

lemma scan_file_missing: "files w fp = None \<Longrightarrow> scan_file c fp w = (Inl OSError, w)"
  by (simp add: scan_file_def read_first_4_def)

lemma scan_file_sniff:
  assumes "files w fp = Some content"
  shows "scan_file c fp w =
    (case classify (take 4 content) of
       Inl e \<Rightarrow> (Inl e, emit (Opened fp) w)
     | Inr NoCompression \<Rightarrow> scan_container c fp False (emit (Opened fp) w)
     | Inr ProprietaryCompressed \<Rightarrow> scan_container c fp True (emit (Opened fp) w)
     | Inr Unsupported \<Rightarrow> (Inr (), emit (Opened fp) w)
     | Inr Unrecognized \<Rightarrow> (Inr (), emit (Opened fp) w))"
  using assms by (simp add: scan_file_def read_first_4_def)

lemma classify_four:
  assumes "length first_4 = 4"
  shows "classify first_4 =
     Inr (if first_4 = [0x55, 0xAA, 0x38, 0x2D] then NoCompression
          else if first_4 ! 0 = 0x11 then ProprietaryCompressed
          else if high_nibble (first_4 ! 0) = 0x4 then Unsupported
          else Unrecognized)"
proof -
  have ne: "first_4 \<noteq> []" using assms by auto
  have a: "unat (first_4 ! 0) = 0x11 \<longleftrightarrow> first_4 ! 0 = 0x11"
    by (simp add: word_unat_eq_iff)
  have "unat (high_nibble (first_4 ! 0)) = drop_bit 4 (unat (first_4 ! 0))"
    by (simp add: high_nibble_def unat_drop_bit_eq)
  then have b: "drop_bit 4 (unat (first_4 ! 0)) = 4 \<longleftrightarrow> high_nibble (first_4 ! 0) = 0x4"
    by (simp add: word_unat_eq_iff)
  show ?thesis using ne a b by (simp add: classify_def)
qed

section \<open>The claims about the area loop\<close>

lemma fix_areas_returns:
  assumes "list_all (slot_well_formed course) [1..<5]"
  shows "\<exists>course'.
      fix_areas course = Inr (course', spec_total_fixes course, spec_total_areas_fixed course)
      \<and> map fst course' = map fst course
      \<and> (\<forall>i\<in>{1..<5}. map_of course' (course_fn i) =
            (if slot_present course i \<and> 0 < slot_fixes (slot_data course i)
             then Some (U8File (slot_patched (slot_data course i)))
             else map_of course (course_fn i)))
      \<and> (\<forall>k. k \<notin> course_fn ` {1..<5} \<longrightarrow> map_of course' k = map_of course k)"
proof -
  have wf: "\<forall>i\<in>set [1..<5]. slot_well_formed course i"
    using assms by (simp add: list_all_iff)
  from fix_areas_loop_returns [OF course_fn_distinct wf, of 0 0]
  show ?thesis
    unfolding fix_areas_def spec_total_fixes_def spec_total_areas_fixed_def present_slots_def
    by simp
qed

lemma fix_areas_raises:
  assumes "\<not> list_all (slot_well_formed course) [1..<5]"
  shows "\<exists>e. fix_areas course = Inl e"
proof -
  from assms obtain i where "i \<in> set [1..<5]" "\<not> slot_well_formed course i"
    by (auto simp: list_all_iff)
  from fix_areas_loop_raises [OF course_fn_distinct this]
  show ?thesis by (simp add: fix_areas_def)
qed

lemma fix_areas_total:
  assumes "fix_areas course = Inr (course', tf, ta)"
  shows "tf = spec_total_fixes course \<and> ta = spec_total_areas_fixed course"
proof (cases "list_all (slot_well_formed course) [1..<5]")
  case True
  from fix_areas_returns [OF True] assms show ?thesis by auto
next
  case False
  from fix_areas_raises [OF False] assms show ?thesis by auto
qed

lemma course_fn_values:
  "course_fn 1 = ''course1.bin''" "course_fn 2 = ''course2.bin''"
  "course_fn 3 = ''course3.bin''" "course_fn 4 = ''course4.bin''"
  by code_simp+

lemma example_slot_facts:
  "slot_ok example_slot" "slot_fixes example_slot = 1" "slot_patched example_slot = patched_slot"
  by code_simp+

lemma patched_slot_facts:
  "slot_ok patched_slot" "slot_fixes patched_slot = 0" "slot_patched patched_slot = patched_slot"
  by code_simp+

lemma example_course_facts:
  "list_all (slot_well_formed example_course) [1..<5]"
  "spec_total_fixes example_course = 2"
  "spec_total_areas_fixed example_course = 2"
  by code_simp+

text \<open>
  Claim C6. When every present slot among \<open>course1.bin\<close> .. \<open>course4.bin\<close> is a well-formed
  byte string, the loop returns; \<open>total_fixes\<close> is the sum over the present slots of the
  number of records whose flag was not zero, \<open>total_areas_fixed\<close> the number of present
  slots with such a record; the entry of a slot is replaced by its patched bytes exactly
  when its own count is positive, every other entry and the order of the keys stay. The
  outcome for a slot depends on that slot alone, so a missing slot changes nothing for the
  others. When a present slot is not well formed the loop raises. The count of a slot is
  what \<open>fix_course_file\<close> returns for it.
\<close>

theorem fix_areas_totals:
  "(list_all (slot_well_formed course) [1..<5] \<longrightarrow>
      (\<exists>course'.
         fix_areas course = Inr (course', spec_total_fixes course, spec_total_areas_fixed course)
         \<and> map fst course' = map fst course
         \<and> (\<forall>i\<in>{1..<5}. map_of course' (course_fn i) =
               (if slot_present course i \<and> 0 < slot_fixes (slot_data course i)
                then Some (U8File (slot_patched (slot_data course i)))
                else map_of course (course_fn i)))
         \<and> (\<forall>k. k \<notin> course_fn ` {1..<5} \<longrightarrow> map_of course' k = map_of course k)))
   \<and> (\<not> list_all (slot_well_formed course) [1..<5] \<longrightarrow> (\<exists>e. fix_areas course = Inl e))
   \<and> (\<forall>i data. map_of course (course_fn i) = Some (U8File data) \<and> slot_ok data \<longrightarrow>
         slot_data course i = data
         \<and> fix_course_file data = Inr (slot_patched data, slot_fixes data))"
  using fix_areas_returns [of course] fix_areas_raises [of course]
  by (auto simp: fix_course_file_eq slot_data_def)

theorem fix_areas_totals_witness:
  "\<exists>course'. fix_areas example_course = Inr (course', 2, 2)
     \<and> map fst course' = [''course1.bin'', ''course3.bin'']
     \<and> map_of course' ''course1.bin'' = Some (U8File patched_slot)
     \<and> map_of course' ''course2.bin'' = None"
proof -
  from fix_areas_totals [of example_course] example_course_facts
  obtain course' where r: "fix_areas example_course = Inr (course', 2, 2)"
    and k: "map fst course' = map fst example_course"
    and s: "\<forall>i\<in>{1..<5}. map_of course' (course_fn i) =
               (if slot_present example_course i \<and> 0 < slot_fixes (slot_data example_course i)
                then Some (U8File (slot_patched (slot_data example_course i)))
                else map_of example_course (course_fn i))"
    by auto
  have p1: "slot_present example_course 1" "slot_data example_course 1 = example_slot"
    and p2: "\<not> slot_present example_course 2"
    by code_simp+
  from s have "map_of course' (course_fn 1) = Some (U8File patched_slot)"
    using p1 by (simp add: example_slot_facts)
  then have a: "map_of course' ''course1.bin'' = Some (U8File patched_slot)"
    unfolding course_fn_values .
  from s have "map_of course' (course_fn 2) = None"
    using p2 by (simp add: slot_present_def)
  then have b: "map_of course' ''course2.bin'' = None"
    unfolding course_fn_values .
  have keys: "map fst course' = [''course1.bin'', ''course3.bin'']"
    using k by (simp add: example_course_def)
  show ?thesis
    by (rule exI[of _ course']) (simp only: r a b keys simp_thms)
qed

text \<open>The outcome of a run, in one piece.\<close>

lemma scan_file_outcome:
  assumes "files w fp = Some content"
  shows "scan_file c fp w =
    (case classify (take 4 content) of
       Inl e \<Rightarrow> (Inl e, w\<lparr>trace := trace w @ [Opened fp]\<rparr>)
     | Inr st \<Rightarrow>
        if st = Unsupported \<or> st = Unrecognized then (Inr (), w\<lparr>trace := trace w @ [Opened fp]\<rparr>)
        else
          (case decode_container c (st = ProprietaryCompressed) content of
             Inl e \<Rightarrow> (Inl e, w\<lparr>trace := trace w @ [Opened fp, ReadBytes fp]\<rparr>)
           | Inr u8 \<Rightarrow>
               if map fst u8 \<noteq> [''course'']
               then (Inr (), w\<lparr>trace := trace w @ [Opened fp, ReadBytes fp]\<rparr>)
               else
                 (case fix_container u8 of
                    Inl e \<Rightarrow> (Inl e, w\<lparr>trace := trace w @ [Opened fp, ReadBytes fp]\<rparr>)
                  | Inr (u8', total_fixes, total_areas_fixed) \<Rightarrow>
                      if 0 < total_fixes then
                        (case encode_container c (st = ProprietaryCompressed) u8' of
                           Inl e \<Rightarrow>
                             (Inl e, w\<lparr>trace := trace w @ [Opened fp, ReadBytes fp,
                                Printed (summary_line total_fixes total_areas_fixed fp)]\<rparr>)
                         | Inr data' \<Rightarrow>
                             (Inr (), w\<lparr>files := (files w)(fp \<mapsto> data'),
                                trace := trace w @ [Opened fp, ReadBytes fp,
                                  Printed (summary_line total_fixes total_areas_fixed fp),
                                  Wrote fp data']\<rparr>))
                      else (Inr (), w\<lparr>trace := trace w @ [Opened fp, ReadBytes fp]\<rparr>))))"
proof -
  have f: "files (w\<lparr>trace := trace w @ [Opened fp]\<rparr>) fp = Some content"
    using assms by simp
  show ?thesis
    by (simp add: scan_file_sniff [OF assms] scan_container_outcome [OF f] emit_eq
             split: sum.splits compression_state.splits prod.splits)
qed

lemma scan_file_target:
  assumes f: "files w fp = Some content"
    and t: "target_fixes c content = Some (ic, u8', t, a)"
  shows "scan_file c fp w =
     (if 0 < t then
        (case encode_container c ic u8' of
           Inl e \<Rightarrow> (Inl e, w\<lparr>trace := trace w @ [Opened fp, ReadBytes fp,
                                  Printed (summary_line t a fp)]\<rparr>)
         | Inr d \<Rightarrow> (Inr (), w\<lparr>files := (files w)(fp \<mapsto> d),
                                trace := trace w @ [Opened fp, ReadBytes fp,
                                  Printed (summary_line t a fp), Wrote fp d]\<rparr>))
      else (Inr (), w\<lparr>trace := trace w @ [Opened fp, ReadBytes fp]\<rparr>))"
proof -
  from t obtain u8 where d: "decoded c content = Some (ic, u8)"
    and k: "map fst u8 = [''course'']" and fx: "fix_container u8 = Inr (u8', t, a)"
    by (auto simp: target_fixes_def split: option.splits if_splits sum.splits)
  from d obtain st where st: "classify (take 4 content) = Inr st"
    "st = NoCompression \<or> st = ProprietaryCompressed" "ic = (st = ProprietaryCompressed)"
    and dc: "decode_container c ic content = Inr u8"
    by (auto simp: decoded_def split: sum.splits compression_state.splits)
  show ?thesis
    unfolding scan_file_outcome [OF f]
    using st dc k fx by auto
qed

lemma scan_file_no_target:
  assumes f: "files w fp = Some content"
    and t: "target_fixes c content = None"
  shows "\<exists>r. scan_file c fp w = (r, w\<lparr>trace := trace w @ [Opened fp]\<rparr>)
            \<or> scan_file c fp w = (r, w\<lparr>trace := trace w @ [Opened fp, ReadBytes fp]\<rparr>)"
proof (cases "classify (take 4 content)")
  case (Inl e)
  then show ?thesis unfolding scan_file_outcome [OF f] by auto
next
  case (Inr st)
  show ?thesis
  proof (cases "st = Unsupported \<or> st = Unrecognized")
    case True
    then show ?thesis unfolding scan_file_outcome [OF f] using Inr by auto
  next
    case False
    then have st: "st = NoCompression \<or> st = ProprietaryCompressed" by (cases st) auto
    show ?thesis
    proof (cases "decode_container c (st = ProprietaryCompressed) content")
      case (Inl e)
      then show ?thesis unfolding scan_file_outcome [OF f] using Inr False by auto
    next
      case u8: (Inr u8)
      then have d: "decoded c content = Some (st = ProprietaryCompressed, u8)"
        using Inr st by (auto simp: decoded_def)
      show ?thesis
      proof (cases "map fst u8 = [''course'']")
        case False
        then show ?thesis unfolding scan_file_outcome [OF f] using Inr \<open>\<not> (st = Unsupported \<or> st = Unrecognized)\<close> u8 by auto
      next
        case True
        with t d obtain e where "fix_container u8 = Inl e"
          by (auto simp: target_fixes_def split: sum.splits)
        then show ?thesis unfolding scan_file_outcome [OF f]
          using Inr \<open>\<not> (st = Unsupported \<or> st = Unrecognized)\<close> u8 True by auto
      qed
    qed
  qed
qed


lemma unmodified_append:
  "w' = w\<lparr>trace := trace w @ evs\<rparr> \<Longrightarrow> filter is_write evs = [] \<Longrightarrow> unmodified w w'"
  by (simp add: unmodified_def emitted_def)

lemma scan_file_unmodified:
  assumes f: "files w fp = Some content" and run: "scan_file c fp w = (r, w')"
    and nt: "\<not> (\<exists>ic u8' t a. target_fixes c content = Some (ic, u8', t, a) \<and> 0 < t)"
  shows "unmodified w w'"
proof (cases "target_fixes c content")
  case None
  from scan_file_no_target [OF f None] run
  have "w' = w\<lparr>trace := trace w @ [Opened fp]\<rparr> \<or> w' = w\<lparr>trace := trace w @ [Opened fp, ReadBytes fp]\<rparr>"
    by auto
  then show ?thesis
  proof
    assume "w' = w\<lparr>trace := trace w @ [Opened fp]\<rparr>"
    then show ?thesis by (rule unmodified_append) (simp add: is_write_def)
  next
    assume "w' = w\<lparr>trace := trace w @ [Opened fp, ReadBytes fp]\<rparr>"
    then show ?thesis by (rule unmodified_append) (simp add: is_write_def)
  qed
next
  case (Some x)
  obtain ic u8' t a where x: "x = (ic, u8', t, a)" by (cases x)
  with Some nt have "t = 0" by auto
  with scan_file_target [OF f Some [unfolded x]] run
  have "w' = w\<lparr>trace := trace w @ [Opened fp, ReadBytes fp]\<rparr>" by simp
  then show ?thesis by (rule unmodified_append) (simp add: is_write_def)
qed

lemma scan_file_write_iff:
  assumes f: "files w fp = Some content" and run: "scan_file c fp w = (r, w')"
  shows "(\<exists>data. Wrote fp data \<in> set (emitted w w')) \<longleftrightarrow>
           (\<exists>ic u8' t a. target_fixes c content = Some (ic, u8', t, a) \<and> 0 < t
              \<and> (\<exists>data. encode_container c ic u8' = Inr data))"
proof (cases "target_fixes c content")
  case None
  from scan_file_no_target [OF f None] run
  have "w' = w\<lparr>trace := trace w @ [Opened fp]\<rparr> \<or> w' = w\<lparr>trace := trace w @ [Opened fp, ReadBytes fp]\<rparr>"
    by auto
  then have "emitted w w' = [Opened fp] \<or> emitted w w' = [Opened fp, ReadBytes fp]"
    by (auto simp: emitted_def)
  then show ?thesis using None by auto
next
  case (Some x)
  obtain ic u8' t a where x: "x = (ic, u8', t, a)" by (cases x)
  note tg = scan_file_target [OF f Some [unfolded x]]
  show ?thesis
  proof (cases "0 < t")
    case False
    with tg run have "w' = w\<lparr>trace := trace w @ [Opened fp, ReadBytes fp]\<rparr>" by simp
    then have "emitted w w' = [Opened fp, ReadBytes fp]" by (simp add: emitted_def)
    then show ?thesis using Some x False by auto
  next
    case True
    show ?thesis
    proof (cases "encode_container c ic u8'")
      case (Inl e)
      with tg run True
      have "w' = w\<lparr>trace := trace w @ [Opened fp, ReadBytes fp, Printed (summary_line t a fp)]\<rparr>"
        by simp
      then have "emitted w w' = [Opened fp, ReadBytes fp, Printed (summary_line t a fp)]"
        by (simp add: emitted_def)
      then show ?thesis using Some x Inl by auto
    next
      case (Inr d)
      with tg run True
      have "w' = w\<lparr>files := (files w)(fp \<mapsto> d), trace := trace w @ [Opened fp, ReadBytes fp,
                                  Printed (summary_line t a fp), Wrote fp d]\<rparr>"
        by simp
      then have "emitted w w' = [Opened fp, ReadBytes fp, Printed (summary_line t a fp), Wrote fp d]"
        by (simp add: emitted_def)
      then show ?thesis using Some x Inr True by auto
    qed
  qed
qed

lemma fix_container_total:
  assumes "fix_container u8 = Inr (u8', tf, ta)" "map_of u8 ''course'' = Some (U8Folder course)"
  shows "tf = spec_total_fixes course"
  using assms fix_areas_total [of course]
  by (auto simp: fix_container_def split: sum.splits)

lemma course_fn_Suc0: "course_fn (Suc 0) = ''course1.bin''"
  using course_fn_values(1) by simp

lemma upt_1_5: "[1..<5] = [1, 2, 3, 4 :: nat]"
  by code_simp

lemma fix_areas_example: "fix_areas example_course = Inr (patched_course, 2, 2)"
  unfolding fix_areas_def upt_1_5
  by (simp add: course_fn_values course_fn_Suc0 example_course_def
        patched_course_def fix_course_entry_eq example_slot_facts)

lemma fix_areas_patched: "fix_areas patched_course = Inr (patched_course, 0, 0)"
  unfolding fix_areas_def upt_1_5
  by (simp add: course_fn_values course_fn_Suc0
        patched_course_def fix_course_entry_eq patched_slot_facts)

lemma fix_container_example: "fix_container example_container = Inr (patched_container, 2, 2)"
  by (simp add: fix_container_def example_container_def patched_container_def fix_areas_example)

lemma fix_container_patched: "fix_container patched_container = Inr (patched_container, 0, 0)"
  by (simp add: fix_container_def patched_container_def fix_areas_patched)

lemma classify_magic: "classify (take 4 (container_magic @ rest)) = Inr NoCompression"
  by (simp add: classify_def container_magic_def)

lemma decoded_example:
  "decoded toy_codecs (container_magic @ [1]) = Some (False, example_container)"
  unfolding decoded_def classify_magic
  by (simp add: decode_container_def toy_codecs_def)

lemma decoded_broken:
  "decoded toy_codecs (container_magic @ [3]) = Some (False, broken_container)"
  unfolding decoded_def classify_magic
  by (simp add: decode_container_def toy_codecs_def)

lemma target_example:
  "target_fixes toy_codecs (container_magic @ [1]) = Some (False, patched_container, 2, 2)"
  by (simp add: target_fixes_def decoded_example example_container_def fix_container_example
        [unfolded example_container_def])

lemma patched_ne_example: "patched_container \<noteq> example_container"
proof
  assume "patched_container = example_container"
  then have "patched_slot = example_slot"
    by (simp add: patched_container_def example_container_def patched_course_def example_course_def)
  then have "patched_slot ! 11 = example_slot ! 11" by simp
  then show False by (simp add: patched_slot_def example_slot_def)
qed

lemma encode_patched:
  "encode_container toy_codecs False patched_container = Inr (container_magic @ [2])"
  by (simp add: encode_container_def toy_codecs_def patched_ne_example)

lemma example_world_files:
  "files example_world [''a.arc''] = Some (container_magic @ [1])"
  "files example_world [''b.arc''] = Some [0x41, 0, 0, 0, 7]"
  "files example_world [''c.arc''] = Some (container_magic @ [3])"
  by (simp_all add: example_world_def)

lemma classify_b: "classify (take 4 [0x41, 0, 0, 0, 7]) = Inr Unsupported"
  by (simp add: classify_def)

lemma not_slot_ok:
  assumes "length data < 0x50
     \<or> (\<exists>i<(snd (zones_header data) div 24).
           length data < flag_pos (fst (zones_header data)) i + 2)"
  shows "\<not> slot_ok data"
proof -
  obtain z s where h: "zones_header data = (z, s)" by (cases "zones_header data")
  from assms h have "length data < 0x50 \<or> (\<exists>i<(s div 24). length data < flag_pos z i + 2)"
    by simp
  then show ?thesis
    by (auto simp: slot_ok_def list_all_iff h not_le)
qed

lemma scan_file_safe_raise:
  "scan_file c fp w = (Inl e, w1) \<Longrightarrow>
   scan_file_safe c fp w =
     (Inr (), w1\<lparr>trace := trace w1 @
        [Printed (''ERROR while checking \"'' @ path_str fp @ ''\":''), PrintedTraceback e]\<rparr>)"
  by (simp add: scan_file_safe_def emit_eq)

section \<open>The claims about scan\_file\<close>

text \<open>
  Claim C5. On four leading bytes the sniffing never raises and yields \<open>NoCompression\<close>
  exactly for the magic \<open>U 0xAA 8 -\<close>, else \<open>ProprietaryCompressed\<close> exactly when byte 0
  is \<open>0x11\<close>, else \<open>Unsupported\<close> exactly when the high nibble of byte 0 is \<open>0x4\<close>, else
  \<open>Unrecognized\<close>. In the last two cases \<open>scan_file\<close> returns having only opened the file
  for its first four bytes: it reads nothing more and writes nothing.
\<close>

theorem classify_first_four:
  "(length first_4 = 4 \<longrightarrow>
      classify first_4 =
        Inr (if first_4 = [0x55, 0xAA, 0x38, 0x2D] then NoCompression
             else if first_4 ! 0 = 0x11 then ProprietaryCompressed
             else if high_nibble (first_4 ! 0) = 0x4 then Unsupported
             else Unrecognized))
   \<and> (files w fp = Some content
        \<and> (classify (take 4 content) = Inr Unsupported
             \<or> classify (take 4 content) = Inr Unrecognized) \<longrightarrow>
        scan_file c fp w = (Inr (), w\<lparr>trace := trace w @ [Opened fp]\<rparr>))"
proof (intro conjI impI)
  assume "length first_4 = 4"
  then show "classify first_4 =
        Inr (if first_4 = [0x55, 0xAA, 0x38, 0x2D] then NoCompression
             else if first_4 ! 0 = 0x11 then ProprietaryCompressed
             else if high_nibble (first_4 ! 0) = 0x4 then Unsupported
             else Unrecognized)"
    by (rule classify_four)
next
  assume a: "files w fp = Some content
        \<and> (classify (take 4 content) = Inr Unsupported
             \<or> classify (take 4 content) = Inr Unrecognized)"
  then have f: "files w fp = Some content" by simp
  from a show "scan_file c fp w = (Inr (), w\<lparr>trace := trace w @ [Opened fp]\<rparr>)"
    by (auto simp: scan_file_outcome [OF f])
qed

theorem classify_first_four_witness:
  "classify [0x41, 0, 0, 0] = Inr Unsupported
   \<and> scan_file toy_codecs [''b.arc''] example_world
       = (Inr (), example_world\<lparr>trace := trace example_world @ [Opened [''b.arc'']]\<rparr>)"
proof -
  have hn: "high_nibble (0x41 :: byte) = 0x4" by code_simp
  have c: "classify [0x41, 0, 0, 0] = Inr Unsupported"
    using classify_first_four [of "[0x41, 0, 0, 0]"] hn by simp
  have f: "files example_world [''b.arc''] = Some [0x41, 0, 0, 0, 7]"
    by (simp add: example_world_def)
  show ?thesis
    using classify_first_four [of "[]" example_world "[''b.arc'']" "[0x41, 0, 0, 0, 7]" toy_codecs]
      c f by simp
qed

text \<open>
  Claim C3. A run of \<open>scan_file\<close> on an existing file writes the file exactly when the
  file is a target container whose \<open>total_fixes\<close> is positive (and the encoders return
  the bytes to write). In every other case nothing is written and every file is left as it
  was: in particular when the file sniffs as \<open>Unsupported\<close> or \<open>Unrecognized\<close>, when the
  key set of the decoded container is not \<open>{course}\<close>, and when no record of a present slot
  has a nonzero flag.
\<close>

theorem scan_file_writes_iff:
  assumes "files w fp = Some content" and "scan_file c fp w = (r, w')"
  shows "((\<exists>data. Wrote fp data \<in> set (emitted w w')) \<longleftrightarrow>
           (\<exists>ic u8' t a. target_fixes c content = Some (ic, u8', t, a) \<and> 0 < t
              \<and> (\<exists>data. encode_container c ic u8' = Inr data)))
       \<and> (\<not> (\<exists>ic u8' t a. target_fixes c content = Some (ic, u8', t, a) \<and> 0 < t)
            \<longrightarrow> unmodified w w')
       \<and> (classify (take 4 content) = Inr Unsupported
            \<or> classify (take 4 content) = Inr Unrecognized \<longrightarrow> unmodified w w')
       \<and> (\<forall>ic u8. decoded c content = Some (ic, u8) \<and> set (map fst u8) \<noteq> {''course''}
            \<longrightarrow> unmodified w w')
       \<and> (\<forall>ic u8 course. decoded c content = Some (ic, u8)
              \<and> map_of u8 ''course'' = Some (U8Folder course) \<and> spec_total_fixes course = 0
            \<longrightarrow> unmodified w w')"
proof (intro conjI impI allI)
  show "(\<exists>data. Wrote fp data \<in> set (emitted w w')) \<longleftrightarrow>
           (\<exists>ic u8' t a. target_fixes c content = Some (ic, u8', t, a) \<and> 0 < t
              \<and> (\<exists>data. encode_container c ic u8' = Inr data))"
    by (rule scan_file_write_iff [OF assms])
next
  assume "\<not> (\<exists>ic u8' t a. target_fixes c content = Some (ic, u8', t, a) \<and> 0 < t)"
  then show "unmodified w w'" by (rule scan_file_unmodified [OF assms])
next
  assume "classify (take 4 content) = Inr Unsupported
            \<or> classify (take 4 content) = Inr Unrecognized"
  then have "target_fixes c content = None"
    by (auto simp: target_fixes_def decoded_def)
  then have "\<not> (\<exists>ic u8' t a. target_fixes c content = Some (ic, u8', t, a) \<and> 0 < t)"
    by simp
  then show "unmodified w w'" by (rule scan_file_unmodified [OF assms])
next
  fix ic u8
  assume "decoded c content = Some (ic, u8) \<and> set (map fst u8) \<noteq> {''course''}"
  then have "target_fixes c content = None"
    by (auto simp: target_fixes_def)
  then have "\<not> (\<exists>ic u8' t a. target_fixes c content = Some (ic, u8', t, a) \<and> 0 < t)"
    by simp
  then show "unmodified w w'" by (rule scan_file_unmodified [OF assms])
next
  fix ic u8 course
  assume a: "decoded c content = Some (ic, u8)
              \<and> map_of u8 ''course'' = Some (U8Folder course) \<and> spec_total_fixes course = 0"
  have "\<not> (\<exists>ic u8' t a. target_fixes c content = Some (ic, u8', t, a) \<and> 0 < t)"
  proof
    assume "\<exists>ic u8' t a. target_fixes c content = Some (ic, u8', t, a) \<and> 0 < t"
    then obtain ic' u8' t ar where t: "target_fixes c content = Some (ic', u8', t, ar)" "0 < t"
      by blast
    with a have "fix_container u8 = Inr (u8', t, ar)"
      by (auto simp: target_fixes_def split: if_splits sum.splits)
    from fix_container_total [OF this] a t(2) show False by simp
  qed
  then show "unmodified w w'" by (rule scan_file_unmodified [OF assms])
qed

theorem scan_file_writes_iff_witness:
  "(\<exists>data. Wrote [''a.arc''] data
      \<in> set (emitted example_world (snd (scan_file toy_codecs [''a.arc''] example_world))))
   \<and> unmodified example_world (snd (scan_file toy_codecs [''b.arc''] example_world))"
proof -
  have a: "scan_file toy_codecs [''a.arc''] example_world
      = (fst (scan_file toy_codecs [''a.arc''] example_world),
         snd (scan_file toy_codecs [''a.arc''] example_world))" by simp
  have b: "scan_file toy_codecs [''b.arc''] example_world
      = (fst (scan_file toy_codecs [''b.arc''] example_world),
         snd (scan_file toy_codecs [''b.arc''] example_world))" by simp
  have "\<exists>ic u8' t a. target_fixes toy_codecs (container_magic @ [1]) = Some (ic, u8', t, a)
      \<and> 0 < t \<and> (\<exists>data. encode_container toy_codecs ic u8' = Inr data)"
    by (rule exI[of _ False], rule exI[of _ patched_container], rule exI[of _ 2],
        rule exI[of _ 2]) (simp add: target_example encode_patched)
  with scan_file_writes_iff [OF example_world_files(1) a]
  have 1: "\<exists>data. Wrote [''a.arc''] data
      \<in> set (emitted example_world (snd (scan_file toy_codecs [''a.arc''] example_world)))"
    by blast
  from scan_file_writes_iff [OF example_world_files(2) b] classify_b
  have 2: "unmodified example_world (snd (scan_file toy_codecs [''b.arc''] example_world))"
    by blast
  from 1 2 show ?thesis by (rule conjI)
qed

text \<open>
  Claim C9. A slot shorter than \<open>0x50\<close> bytes, or one whose header places the flag field
  of some record \<open>i < zones_size div 24\<close> outside the buffer, makes \<open>fix_course_file\<close> raise
  \<open>struct.error\<close>: nothing is returned and nothing is clamped. When such a slot is one of
  the four of a target container, the exception leaves \<open>scan_file\<close>, no file is changed,
  and \<open>scan_file_safe\<close> catches it and prints the path and the traceback.
\<close>

theorem fix_course_file_out_of_range:
  assumes "length data < 0x50
     \<or> (\<exists>i<(snd (zones_header data) div 24).
           length data < flag_pos (fst (zones_header data)) i + 2)"
  shows "fix_course_file data = Inl StructError
    \<and> (\<forall>c fp w content ic u8 course i.
         files w fp = Some content \<and> decoded c content = Some (ic, u8)
         \<and> map fst u8 = [''course''] \<and> map_of u8 ''course'' = Some (U8Folder course)
         \<and> i \<in> {1..<5} \<and> map_of course (course_fn i) = Some (U8File data)
         \<longrightarrow> (\<exists>e w1. scan_file c fp w = (Inl e, w1) \<and> files w1 = files w
                \<and> scan_file_safe c fp w =
                    (Inr (), w1\<lparr>trace := trace w1 @
                       [Printed (''ERROR while checking \"'' @ path_str fp @ ''\":''),
                        PrintedTraceback e]\<rparr>)))"
proof (intro conjI allI impI)
  have bad: "\<not> slot_ok data" by (rule not_slot_ok [OF assms])
  then show "fix_course_file data = Inl StructError"
    by (simp add: fix_course_file_eq)
  fix c fp and w :: world and content ic u8 course i
  assume a: "files w fp = Some content \<and> decoded c content = Some (ic, u8)
         \<and> map fst u8 = [''course''] \<and> map_of u8 ''course'' = Some (U8Folder course)
         \<and> i \<in> {1..<5} \<and> map_of course (course_fn i) = Some (U8File data)"
  then have f: "files w fp = Some content" by simp
  from a bad have "\<not> slot_well_formed course i"
    by (simp add: slot_well_formed_def)
  with a have "\<not> list_all (slot_well_formed course) [1..<5]"
    by (auto simp: list_all_iff)
  from fix_areas_raises [OF this] obtain e where "fix_areas course = Inl e" ..
  with a have fc: "fix_container u8 = Inl e"
    by (simp add: fix_container_def)
  from a obtain st where st: "classify (take 4 content) = Inr st"
    "st = NoCompression \<or> st = ProprietaryCompressed" "ic = (st = ProprietaryCompressed)"
    and dc: "decode_container c ic content = Inr u8"
    by (auto simp: decoded_def split: sum.splits compression_state.splits)
  have run: "scan_file c fp w = (Inl e, w\<lparr>trace := trace w @ [Opened fp, ReadBytes fp]\<rparr>)"
    unfolding scan_file_outcome [OF f] using st dc a fc by auto
  show "\<exists>e w1. scan_file c fp w = (Inl e, w1) \<and> files w1 = files w
                \<and> scan_file_safe c fp w =
                    (Inr (), w1\<lparr>trace := trace w1 @
                       [Printed (''ERROR while checking \"'' @ path_str fp @ ''\":''),
                        PrintedTraceback e]\<rparr>)"
    using run scan_file_safe_raise [OF run]
    by (intro exI[of _ e] exI[of _ "w\<lparr>trace := trace w @ [Opened fp, ReadBytes fp]\<rparr>"] conjI)
       simp_all
qed

theorem fix_course_file_out_of_range_witness:
  "fix_course_file truncated_slot = Inl StructError
   \<and> (\<exists>e w1. scan_file toy_codecs [''c.arc''] example_world = (Inl e, w1)
          \<and> files w1 = files example_world
          \<and> scan_file_safe toy_codecs [''c.arc''] example_world =
              (Inr (), w1\<lparr>trace := trace w1 @
                 [Printed (''ERROR while checking \"'' @ path_str [''c.arc''] @ ''\":''),
                  PrintedTraceback e]\<rparr>))"
proof -
  have h: "length truncated_slot < 0x50
     \<or> (\<exists>i<(snd (zones_header truncated_slot) div 24).
           length truncated_slot < flag_pos (fst (zones_header truncated_slot)) i + 2)"
  proof -
    have "(3::nat) < snd (zones_header truncated_slot) div 24"
      by (simp add: truncated_slot_header)
    moreover have "length truncated_slot < flag_pos (fst (zones_header truncated_slot)) 3 + 2"
      unfolding truncated_slot_header by (simp add: flag_pos_def truncated_slot_def)
    ultimately show ?thesis by blast
  qed
  have k: "map fst broken_container = [''course'']"
    "map_of broken_container ''course'' = Some (U8Folder [(''course2.bin'', U8File truncated_slot)])"
    by (simp_all add: broken_container_def)
  have s: "(2::nat) \<in> {1..<5}"
    "map_of [(''course2.bin'', U8File truncated_slot)] (course_fn 2) = Some (U8File truncated_slot)"
    by (simp_all add: course_fn_values)
  note t = fix_course_file_out_of_range [OF h]
  have pre: "files example_world [''c.arc''] = Some (container_magic @ [3])
      \<and> decoded toy_codecs (container_magic @ [3]) = Some (False, broken_container)
      \<and> map fst broken_container = [''course'']
      \<and> map_of broken_container ''course''
          = Some (U8Folder [(''course2.bin'', U8File truncated_slot)])
      \<and> (2::nat) \<in> {1..<5}
      \<and> map_of [(''course2.bin'', U8File truncated_slot)] (course_fn 2)
          = Some (U8File truncated_slot)"
    using example_world_files(3) decoded_broken k s by (intro conjI)
  from t [THEN conjunct1] t [THEN conjunct2, rule_format, OF pre]
  show ?thesis by (rule conjI)
qed

section \<open>The claims about the candidate filter and the walk\<close>

lemma char_lower_dot: "char_lower ch = CHR ''.'' \<longleftrightarrow> ch = CHR ''.''"
proof
  assume a: "char_lower ch = CHR ''.''"
  show "ch = CHR ''.''"
  proof (cases "CHR ''A'' \<le> ch \<and> ch \<le> CHR ''Z''")
    case False
    with a show ?thesis by (simp add: char_lower_def)
  next
    case True
    then have r: "65 \<le> (of_char ch :: nat)" "(of_char ch :: nat) \<le> 90"
      by (simp_all add: less_eq_char_def)
    from True a have "char_of (of_char ch + (32::nat)) = CHR ''.''"
      by (simp add: char_lower_def)
    then have "(of_char (char_of (of_char ch + (32::nat))) :: nat) = of_char CHR ''.''"
      by simp
    then have "(of_char ch + 32) mod 256 = (46::nat)" by simp
    with r show ?thesis by simp
  qed
next
  assume "ch = CHR ''.''"
  then show "char_lower ch = CHR ''.''" by (simp add: char_lower_def less_eq_char_def)
qed

lemma char_lower_not_dot: "char_lower ch \<noteq> CHR ''.'' \<Longrightarrow> ch \<noteq> CHR ''.''"
  by (simp add: char_lower_dot)

lemma path_name_snoc [simp]: "path_name (dir @ [n]) = n"
  by (simp add: path_name_def)

lemma looks_like_level_snoc:
  "does_path_look_like_level (dir @ [n]) = does_path_look_like_level [n]"
  by (simp add: does_path_look_like_level_def suffix_def suffixes_def path_name_def)

lemma str_lower_Cons:
  "str_lower n = x # xs \<longleftrightarrow> (\<exists>c r. n = c # r \<and> char_lower c = x \<and> str_lower r = xs)"
  by (cases n) (auto simp: str_lower_def)

lemma str_lower_Nil [simp]: "str_lower n = [] \<longleftrightarrow> n = []"
  by (simp add: str_lower_def)

lemma lower_arc:
  assumes "str_lower n = ''.arc''"
  shows "\<exists>c1 c2 c3. n = [CHR ''.'', c1, c2, c3]
    \<and> c1 \<noteq> CHR ''.'' \<and> c2 \<noteq> CHR ''.'' \<and> c3 \<noteq> CHR ''.''"
proof -
  from assms obtain c0 c1 c2 c3 where n: "n = [c0, c1, c2, c3]"
    and l: "char_lower c0 = CHR ''.''" "char_lower c1 = CHR ''a''"
    "char_lower c2 = CHR ''r''" "char_lower c3 = CHR ''c''"
    by (simp add: str_lower_Cons) blast
  have 0: "c0 = CHR ''.''" using l(1) by (simp add: char_lower_dot)
  have 1: "c1 \<noteq> CHR ''.''" by (rule char_lower_not_dot) (simp add: l)
  have 2: "c2 \<noteq> CHR ''.''" by (rule char_lower_not_dot) (simp add: l)
  have 3: "c3 \<noteq> CHR ''.''" by (rule char_lower_not_dot) (simp add: l)
  show ?thesis unfolding n 0 using 1 2 3 by simp
qed

lemma lower_arc_lz:
  assumes "str_lower n = ''.arc.lz''"
  shows "\<exists>c1 c2 c3 c5 c6. n = [CHR ''.'', c1, c2, c3, CHR ''.'', c5, c6]
    \<and> c1 \<noteq> CHR ''.'' \<and> c2 \<noteq> CHR ''.'' \<and> c3 \<noteq> CHR ''.'' \<and> c5 \<noteq> CHR ''.'' \<and> c6 \<noteq> CHR ''.''
    \<and> char_lower c5 = CHR ''l'' \<and> char_lower c6 = CHR ''z''"
proof -
  from assms obtain c0 c1 c2 c3 c4 c5 c6 where n: "n = [c0, c1, c2, c3, c4, c5, c6]"
    and l: "char_lower c0 = CHR ''.''" "char_lower c1 = CHR ''a''"
    "char_lower c2 = CHR ''r''" "char_lower c3 = CHR ''c''" "char_lower c4 = CHR ''.''"
    "char_lower c5 = CHR ''l''" "char_lower c6 = CHR ''z''"
    by (simp add: str_lower_Cons) blast
  have 0: "c0 = CHR ''.''" "c4 = CHR ''.''" using l by (simp_all add: char_lower_dot)
  have 1: "c1 \<noteq> CHR ''.''" by (rule char_lower_not_dot) (simp add: l)
  have 2: "c2 \<noteq> CHR ''.''" by (rule char_lower_not_dot) (simp add: l)
  have 3: "c3 \<noteq> CHR ''.''" by (rule char_lower_not_dot) (simp add: l)
  have 5: "c5 \<noteq> CHR ''.''" by (rule char_lower_not_dot) (simp add: l)
  have 6: "c6 \<noteq> CHR ''.''" by (rule char_lower_not_dot) (simp add: l)
  show ?thesis unfolding n 0 using 1 2 3 5 6 l by simp
qed

text \<open>
  Claim C10. A file whose whole name is \<open>.arc\<close> or \<open>.arc.lz\<close>, in any mix of upper and
  lower case and in any directory, is not accepted by \<open>does_path_look_like_level\<close>: the
  leading dot does not start a suffix, so \<open>.arc\<close> has no suffix at all, and \<open>.arc.lz\<close> has
  the single suffix \<open>.lz\<close>.
\<close>

theorem leading_dot_names_rejected:
  assumes "str_lower n = ''.arc'' \<or> str_lower n = ''.arc.lz''"
  shows "\<not> does_path_look_like_level (dir @ [n])
       \<and> (str_lower n = ''.arc'' \<longrightarrow> suffix (dir @ [n]) = [] \<and> suffixes (dir @ [n]) = [])
       \<and> (str_lower n = ''.arc.lz'' \<longrightarrow>
             str_lower (suffix (dir @ [n])) = ''.lz''
             \<and> map str_lower (suffixes (dir @ [n])) = [''.lz''])"
  using assms
proof
  assume a: "str_lower n = ''.arc''"
  from lower_arc [OF a] obtain c1 c2 c3 where n: "n = [CHR ''.'', c1, c2, c3]"
    "c1 \<noteq> CHR ''.''" "c2 \<noteq> CHR ''.''" "c3 \<noteq> CHR ''.''"
    by (elim exE conjE)
  have s: "suffix (dir @ [n]) = []" "suffixes (dir @ [n]) = []"
    using n by (simp_all add: suffix_def suffixes_def str_endswith_def str_lstrip_def)
  then have "\<not> does_path_look_like_level (dir @ [n])"
    by (simp add: does_path_look_like_level_def str_lower_def)
  with s a show ?thesis by simp
next
  assume a: "str_lower n = ''.arc.lz''"
  from lower_arc_lz [OF a] obtain c1 c2 c3 c5 c6
    where n: "n = [CHR ''.'', c1, c2, c3, CHR ''.'', c5, c6]"
    "c1 \<noteq> CHR ''.''" "c2 \<noteq> CHR ''.''" "c3 \<noteq> CHR ''.''" "c5 \<noteq> CHR ''.''" "c6 \<noteq> CHR ''.''"
    "char_lower c5 = CHR ''l''" "char_lower c6 = CHR ''z''"
    by (elim exE conjE)
  have s: "suffix (dir @ [n]) = [CHR ''.'', c5, c6]" "suffixes (dir @ [n]) = [[CHR ''.'', c5, c6]]"
    using n by (simp_all add: suffix_def suffixes_def str_endswith_def str_lstrip_def)
  have l: "str_lower [CHR ''.'', c5, c6] = ''.lz''"
    using n by (simp add: str_lower_def char_lower_dot)
  have "\<not> does_path_look_like_level (dir @ [n])"
    by (simp add: does_path_look_like_level_def s l)
  with s l a show ?thesis by simp
qed

theorem leading_dot_names_rejected_witness:
  "\<not> does_path_look_like_level [''levels'', ''.arc'']
   \<and> \<not> does_path_look_like_level [''levels'', ''.ARC.lz'']
   \<and> suffix [''levels'', ''.arc''] = []
   \<and> str_lower (suffix [''levels'', ''.ARC.lz'']) = ''.lz''"
proof -
  have a: "str_lower ''.arc'' = ''.arc'' \<or> str_lower ''.arc'' = ''.arc.lz''" by code_simp
  have b: "str_lower ''.ARC.lz'' = ''.arc'' \<or> str_lower ''.ARC.lz'' = ''.arc.lz''" by code_simp
  have c: "str_lower ''.arc'' = ''.arc''" "str_lower ''.ARC.lz'' = ''.arc.lz''" by code_simp+
  from leading_dot_names_rejected [OF a, of "[''levels'']"]
       leading_dot_names_rejected [OF b, of "[''levels'']"] c
  show ?thesis by simp
qed

lemma scan_file_safe_returns: "fst (scan_file_safe c fp w) = Inr ()"
  by (cases "scan_file c fp w") (auto simp: scan_file_safe_def split: sum.splits)

lemma scan_file_safe_eq: "scan_file_safe c fp w = (Inr (), snd (scan_file_safe c fp w))"
  using scan_file_safe_returns [of c fp w] by (cases "scan_file_safe c fp w") simp

lemma scan_files_step:
  "scan_files c fp ((n, t) # rest) w =
     (if \<not> is_dir t \<and> does_path_look_like_level (fp @ [n])
      then scan_files c fp rest (snd (scan_file_safe c (fp @ [n]) w))
      else scan_files c fp rest w)"
proof -
  have "(case scan_file_safe c (fp @ [n]) w of
           (Inl e, w1) \<Rightarrow> (Inl e, w1)
         | (Inr u, w1) \<Rightarrow> scan_files c fp rest w1)
        = scan_files c fp rest (snd (scan_file_safe c (fp @ [n]) w))"
    by (subst scan_file_safe_eq) simp
  then show ?thesis by (simp add: Let_def)
qed

lemma scan_files_returns: "fst (scan_files c fp entries w) = Inr ()"
proof (induction entries arbitrary: w)
  case Nil
  show ?case by simp
next
  case (Cons a entries)
  obtain n t where a: "a = (n, t)" by (cases a)
  show ?case unfolding a scan_files_step by (simp add: Cons.IH)
qed

lemma scan_files_eq: "scan_files c fp entries w = (Inr (), snd (scan_files c fp entries w))"
  using scan_files_returns [of c fp entries w] by (cases "scan_files c fp entries w") simp

lemma scan_folder_returns:
  "is_dir t \<Longrightarrow> fst (scan_folder c fp t recursive w) = Inr ()"
  "fst (scan_subfolders c fp entries w) = Inr ()"
proof (induction c fp t recursive w and c fp entries w rule: scan_folder_scan_subfolders.induct)
  case (1 c fp recursive w)
  then show ?case by (simp add: is_dir_def)
next
  case (2 c fp entries recursive w)
  obtain x y where run: "scan_files c fp (sort_key fst entries) w = (x, y)"
    by (cases "scan_files c fp (sort_key fst entries) w")
  with scan_files_returns [of c fp "sort_key fst entries" w] have x: "x = Inr ()" by simp
  show ?case
  proof (cases recursive)
    case False
    then show ?thesis using run x by simp
  next
    case True
    from "2.IH" [OF run [symmetric] x True] show ?thesis using run x True by simp
  qed
next
  case (3 c fp w)
  show ?case by simp
next
  case (4 c fp n t rest w)
  show ?case
  proof (cases "is_file t")
    case True
    then show ?thesis using "4.IH"(1) by simp
  next
    case False
    then have d: "is_dir t" by (cases t) (simp_all add: is_file_def is_dir_def)
    obtain r w1 where run: "scan_folder c (fp @ [n]) t True w = (r, w1)"
      by (cases "scan_folder c (fp @ [n]) t True w")
    from "4.IH"(2) [OF False d] run have r: "r = Inr ()" by simp
    from "4.IH"(3) [OF False run [symmetric] r]
    have "fst (scan_subfolders c fp rest w1) = Inr ()" .
    then show ?thesis using False run r by simp
  qed
qed

lemma scenario_sorted:
  "sort_key fst [(''sub'', Directory [(''d.arc'', RegularFile)]), (''c.txt'', RegularFile),
                 (''b.ARC.LZ'', RegularFile), (''a.arc'', RegularFile)]
     = [(''a.arc'', RegularFile), (''b.ARC.LZ'', RegularFile), (''c.txt'', RegularFile),
        (''sub'', Directory [(''d.arc'', RegularFile)])]"
  by code_simp

lemma scenario_names:
  "does_path_look_like_level [''a.arc'']" "does_path_look_like_level [''b.ARC.LZ'']"
  "\<not> does_path_look_like_level [''c.txt'']" "does_path_look_like_level [''d.arc'']"
  by code_simp+

lemma scenario_kinds:
  "\<not> is_dir RegularFile" "is_file RegularFile"
  "is_dir (Directory entries)" "\<not> is_file (Directory entries)"
  by (simp_all add: is_dir_def is_file_def)

lemma scan_folder_flat:
  "scan_folder c fp (Directory entries) recursive w =
     (if recursive
      then scan_subfolders c fp (sort_key fst entries) (snd (scan_files c fp (sort_key fst entries) w))
      else (Inr (), snd (scan_files c fp (sort_key fst entries) w)))"
  by (subst scan_folder.simps, subst scan_files_eq) simp

lemma scan_subfolders_step:
  "scan_subfolders c fp ((n, t) # rest) w =
     (if is_file t then scan_subfolders c fp rest w
      else scan_subfolders c fp rest (snd (scan_folder c (fp @ [n]) t True w)))"
proof (cases "is_file t")
  case True
  then show ?thesis by simp
next
  case False
  then have d: "is_dir t" by (cases t) (simp_all add: is_file_def is_dir_def)
  obtain w1 where run: "scan_folder c (fp @ [n]) t True w = (Inr (), w1)"
    using scan_folder_returns(1) [OF d, of c "fp @ [n]" True w]
    by (cases "scan_folder c (fp @ [n]) t True w") simp
  show ?thesis using False run by simp
qed

lemma scenario_walk:
  "scan_folder c dir scenario_tree False w =
     (Inr (), snd (scan_file_safe c (dir @ [''b.ARC.LZ''])
                (snd (scan_file_safe c (dir @ [''a.arc'']) w))))"
  "scan_folder c dir scenario_tree True w =
     (Inr (), snd (scan_file_safe c (dir @ [''sub'', ''d.arc''])
                (snd (scan_file_safe c (dir @ [''b.ARC.LZ''])
                  (snd (scan_file_safe c (dir @ [''a.arc'']) w))))))"
proof -
  let ?w2 = "snd (scan_file_safe c (dir @ [''b.ARC.LZ''])
                (snd (scan_file_safe c (dir @ [''a.arc'']) w)))"
  have files: "scan_files c dir
      [(''a.arc'', RegularFile), (''b.ARC.LZ'', RegularFile), (''c.txt'', RegularFile),
        (''sub'', Directory [(''d.arc'', RegularFile)])] w = (Inr (), ?w2)"
    by (simp only: scan_files_step scan_files.simps looks_like_level_snoc scenario_names
          scenario_kinds simp_thms if_True if_False)
  show "scan_folder c dir scenario_tree False w = (Inr (), ?w2)"
    unfolding scenario_tree_def scan_folder_flat scenario_sorted files by simp
  have sub: "scan_folder c (dir @ [''sub'']) (Directory [(''d.arc'', RegularFile)]) True ?w2
      = (Inr (), snd (scan_file_safe c (dir @ [''sub'', ''d.arc'']) ?w2))"
  proof -
    have s: "sort_key fst [(''d.arc'', RegularFile)] = [(''d.arc'', RegularFile)]" by simp
    have p: "(dir @ [''sub'']) @ [''d.arc''] = dir @ [''sub'', ''d.arc'']" by simp
    have l: "does_path_look_like_level (dir @ [''sub'', ''d.arc''])"
      using looks_like_level_snoc [of "dir @ [''sub'']" "''d.arc''"] scenario_names(4) by simp
    show ?thesis
      unfolding scan_folder_flat s
      by (simp only: scan_files_step scan_files.simps scan_subfolders_step scan_subfolders.simps
            scenario_kinds p l simp_thms if_True if_False snd_conv)
  qed
  show "scan_folder c dir scenario_tree True w =
     (Inr (), snd (scan_file_safe c (dir @ [''sub'', ''d.arc'']) ?w2))"
    unfolding scenario_tree_def scan_folder_flat scenario_sorted files
    by (simp only: scan_subfolders_step scan_subfolders.simps scenario_kinds sub
          simp_thms if_True if_False snd_conv)
qed

lemma b_arc_lz_suffixes:
  "str_lower (suffix [''b.ARC.LZ'']) = ''.arc''
       \<or> (2 \<le> length (suffixes [''b.ARC.LZ''])
           \<and> str_lower (suffixes [''b.ARC.LZ''] ! (length (suffixes [''b.ARC.LZ'']) - 2)) = ''.arc''
           \<and> str_lower (last (suffixes [''b.ARC.LZ''])) = ''.lz'')"
  by code_simp

lemma main_file:
  "lookup root fp = Some RegularFile \<Longrightarrow> main c root fp recursive w = scan_file c fp w"
  by (simp add: main_def)

lemma broken_slot: "\<not> slot_ok truncated_slot"
  by code_simp

lemma fix_container_broken: "fix_container broken_container = Inl StructError"
  unfolding fix_container_def broken_container_def fix_areas_def upt_1_5
  by (simp add: course_fn_values course_fn_Suc0 fix_course_entry_eq broken_slot)

lemma scan_file_broken:
  "scan_file toy_codecs [''c.arc''] example_world =
     (Inl StructError,
      example_world\<lparr>trace := trace example_world @ [Opened [''c.arc''], ReadBytes [''c.arc'']]\<rparr>)"
proof -
  have d: "decode_container toy_codecs False (container_magic @ [3]) = Inr broken_container"
    by (simp add: decode_container_def toy_codecs_def)
  have k: "map fst broken_container = [''course'']" by (simp add: broken_container_def)
  show ?thesis
    unfolding scan_file_outcome [OF example_world_files(3)] classify_magic
    by (simp add: d k fix_container_broken)
qed

text \<open>
  Claim C7. \<open>does_path_look_like_level\<close> accepts a path exactly when the lowered final
  suffix is \<open>.arc\<close>, or there are at least two suffixes and the lowered last two are
  \<open>.arc\<close> and \<open>.lz\<close>. In the scenario's directory, whatever the codecs, the files'
  contents and the directory's own path, the walk without \<open>recursive\<close> is the processing of
  \<open>a.arc\<close> and then of \<open>b.ARC.LZ\<close> and of nothing else, and the recursive walk processes
  \<open>sub/d.arc\<close> after them.
\<close>

theorem candidate_filter_and_walk:
  "(does_path_look_like_level fp \<longleftrightarrow>
      (str_lower (suffix fp) = ''.arc''
       \<or> (2 \<le> length (suffixes fp)
           \<and> str_lower (suffixes fp ! (length (suffixes fp) - 2)) = ''.arc''
           \<and> str_lower (last (suffixes fp)) = ''.lz'')))
   \<and> scan_folder c dir scenario_tree False w =
       (Inr (), snd (scan_file_safe c (dir @ [''b.ARC.LZ''])
                  (snd (scan_file_safe c (dir @ [''a.arc'']) w))))
   \<and> scan_folder c dir scenario_tree True w =
       (Inr (), snd (scan_file_safe c (dir @ [''sub'', ''d.arc''])
                  (snd (scan_file_safe c (dir @ [''b.ARC.LZ''])
                    (snd (scan_file_safe c (dir @ [''a.arc'']) w))))))"
proof (intro conjI)
  have "2 \<le> length (suffixes fp) \<Longrightarrow>
      suffixes fp ! (length (suffixes fp) - 1) = last (suffixes fp)"
    by (subst last_conv_nth) auto
  then show "does_path_look_like_level fp \<longleftrightarrow>
      (str_lower (suffix fp) = ''.arc''
       \<or> (2 \<le> length (suffixes fp)
           \<and> str_lower (suffixes fp ! (length (suffixes fp) - 2)) = ''.arc''
           \<and> str_lower (last (suffixes fp)) = ''.lz''))"
    by (auto simp: does_path_look_like_level_def)
qed (rule scenario_walk)+

theorem candidate_filter_and_walk_witness:
  "does_path_look_like_level [''b.ARC.LZ'']
   \<and> scan_folder toy_codecs [] scenario_tree True example_world =
       (Inr (), snd (scan_file_safe toy_codecs [''sub'', ''d.arc'']
                  (snd (scan_file_safe toy_codecs [''b.ARC.LZ'']
                    (snd (scan_file_safe toy_codecs [''a.arc''] example_world))))))"
  using candidate_filter_and_walk [of "[''b.ARC.LZ'']" toy_codecs "[]" example_world]
    b_arc_lz_suffixes
  by simp

lemma process_all_simps [simp]:
  "process_all c [] w = w"
  "process_all c (p # ps) w = process_all c ps (snd (scan_file_safe c p w))"
  "process_all c (ps @ qs) w = process_all c qs (process_all c ps w)"
  by (simp_all add: process_all_def)

lemma scan_files_fold:
  "scan_files c fp entries w =
     (Inr (), process_all c (map (\<lambda>entry. fp @ [fst entry]) (filter (is_candidate fp) entries)) w)"
proof (induction entries arbitrary: w)
  case Nil
  show ?case by simp
next
  case (Cons a entries)
  obtain n t where a: "a = (n, t)" by (cases a)
  have k: "(\<not> is_dir t \<and> does_path_look_like_level (fp @ [n])) = is_candidate fp (n, t)"
    by (cases t) (simp_all add: is_dir_def is_candidate_def)
  show ?case unfolding a scan_files_step k by (simp add: Cons.IH)
qed

lemma walk_fold:
  "is_dir t \<Longrightarrow>
     scan_folder c fp t recursive w = (Inr (), process_all c (walk_order recursive fp t) w)"
  "scan_subfolders c fp entries w = (Inr (), process_all c (subfolders_order fp entries) w)"
proof (induction c fp t recursive w and c fp entries w rule: scan_folder_scan_subfolders.induct)
  case (1 c fp recursive w)
  then show ?case by (simp add: is_dir_def)
next
  case (2 c fp entries recursive w)
  let ?w1 = "process_all c (map (\<lambda>entry. fp @ [fst entry])
      (filter (is_candidate fp) (sort_key fst entries))) w"
  have run: "scan_files c fp (sort_key fst entries) w = (Inr (), ?w1)"
    by (rule scan_files_fold)
  show ?case
  proof (cases recursive)
    case False
    then show ?thesis using run by simp
  next
    case True
    from "2.IH" [OF run [symmetric] refl True] show ?thesis using run True by simp
  qed
next
  case (3 c fp w)
  show ?case by simp
next
  case (4 c fp n t rest w)
  show ?case
  proof (cases "is_file t")
    case True
    then have t: "t = RegularFile" by (cases t) (simp_all add: is_file_def)
    from "4.IH"(1) [OF True] show ?thesis using True t by simp
  next
    case False
    then have d: "is_dir t" by (cases t) (simp_all add: is_file_def is_dir_def)
    let ?w1 = "process_all c (walk_order True (fp @ [n]) t) w"
    from "4.IH"(2) [OF False d] have run: "scan_folder c (fp @ [n]) t True w = (Inr (), ?w1)" .
    from "4.IH"(3) [OF False run [symmetric] refl]
    show ?thesis using False run by simp
  qed
qed

lemma scan_file_safe_normal:
  "scan_file c fp w = (Inr u, w1) \<Longrightarrow> scan_file_safe c fp w = (Inr (), w1)"
  by (simp add: scan_file_safe_def)

lemma main_directory:
  "lookup root fp = Some (Directory entries) \<Longrightarrow>
     main c root fp recursive w = scan_folder c fp (Directory entries) recursive w"
  by (simp add: main_def)

lemma scan_file_broken_container:
  assumes "files w fp = Some (container_magic @ [3])"
  shows "scan_file toy_codecs fp w =
     (Inl StructError, w\<lparr>trace := trace w @ [Opened fp, ReadBytes fp]\<rparr>)"
proof -
  have d: "decode_container toy_codecs False (container_magic @ [3]) = Inr broken_container"
    by (simp add: decode_container_def toy_codecs_def)
  have k: "map fst broken_container = [''course'']" by (simp add: broken_container_def)
  show ?thesis
    unfolding scan_file_outcome [OF assms] classify_magic
    by (simp add: d k fix_container_broken)
qed

lemma scan_file_unsupported:
  assumes "files w fp = Some [0x41, 0, 0, 0, 7]"
  shows "scan_file c fp w = (Inr (), w\<lparr>trace := trace w @ [Opened fp]\<rparr>)"
  unfolding scan_file_outcome [OF assms] classify_b by simp

lemma walk_tree_order: "walk_order False [] walk_tree = [[''0.arc''], [''1.arc'']]"
  by code_simp

lemma walk_world_run:
  "process_all toy_codecs [[''0.arc''], [''1.arc'']] walk_world =
     walk_world\<lparr>trace :=
        [Opened [''0.arc''], ReadBytes [''0.arc''],
         Printed (''ERROR while checking \"'' @ path_str [''0.arc''] @ ''\":''),
         PrintedTraceback StructError,
         Opened [''1.arc'']]\<rparr>"
proof -
  have f0: "files walk_world [''0.arc''] = Some (container_magic @ [3])"
    by (simp add: walk_world_def)
  let ?w1 = "walk_world\<lparr>trace := trace walk_world @ [Opened [''0.arc''], ReadBytes [''0.arc'']]\<rparr>"
  let ?w2 = "?w1\<lparr>trace := trace ?w1 @
        [Printed (''ERROR while checking \"'' @ path_str [''0.arc''] @ ''\":''),
         PrintedTraceback StructError]\<rparr>"
  have s0: "scan_file_safe toy_codecs [''0.arc''] walk_world = (Inr (), ?w2)"
    by (rule scan_file_safe_raise [OF scan_file_broken_container [OF f0]])
  have f1: "files ?w2 [''1.arc''] = Some [0x41, 0, 0, 0, 7]"
    by (simp add: walk_world_def)
  have s1: "scan_file_safe toy_codecs [''1.arc''] ?w2
      = (Inr (), ?w2\<lparr>trace := trace ?w2 @ [Opened [''1.arc'']]\<rparr>)"
    by (rule scan_file_safe_normal [OF scan_file_unsupported [OF f1]])
  show ?thesis
    by (simp only: process_all_simps s0 s1 snd_conv) (simp add: walk_world_def)
qed

text \<open>
  Claim C8. \<open>scan_file_safe\<close> never raises: an exception of \<open>scan_file\<close> is caught, and the
  path and the traceback are printed after whatever the run had done; a run that returns
  is left as it is. The walk of a directory is the run of \<open>scan_file_safe\<close> on each
  candidate in turn, in the order of the walk, each starting where the one before ended,
  whether that one raised or not: so the walk goes on with the remaining files and returns
  normally. For a path that is a directory \<open>main\<close> is that walk; for a path that is a
  regular file \<open>main\<close> is \<open>scan_file\<close> itself, so an exception there reaches the top level.
\<close>

theorem exceptions_caught_per_file:
  "fst (scan_file_safe c fp w) = Inr ()
   \<and> (\<forall>e w1. scan_file c fp w = (Inl e, w1) \<longrightarrow>
         scan_file_safe c fp w =
           (Inr (), w1\<lparr>trace := trace w1 @
              [Printed (''ERROR while checking \"'' @ path_str fp @ ''\":''),
               PrintedTraceback e]\<rparr>))
   \<and> (\<forall>w1. scan_file c fp w = (Inr (), w1) \<longrightarrow> scan_file_safe c fp w = (Inr (), w1))
   \<and> fst (scan_folder c fp (Directory entries) recursive w) = Inr ()
   \<and> scan_folder c fp (Directory entries) recursive w =
       (Inr (), process_all c (walk_order recursive fp (Directory entries)) w)
   \<and> scan_files c fp ((n, RegularFile) # rest) w =
       (if does_path_look_like_level (fp @ [n])
        then scan_files c fp rest (snd (scan_file_safe c (fp @ [n]) w))
        else scan_files c fp rest w)
   \<and> (lookup root fp = Some (Directory entries) \<longrightarrow>
         main c root fp recursive w = scan_folder c fp (Directory entries) recursive w)
   \<and> (lookup root fp = Some RegularFile \<longrightarrow> main c root fp recursive w = scan_file c fp w)"
proof (intro conjI allI impI)
  show "fst (scan_file_safe c fp w) = Inr ()" by (rule scan_file_safe_returns)
  show "fst (scan_folder c fp (Directory entries) recursive w) = Inr ()"
    by (rule scan_folder_returns(1)) (simp add: is_dir_def)
  show "scan_folder c fp (Directory entries) recursive w =
       (Inr (), process_all c (walk_order recursive fp (Directory entries)) w)"
    by (rule walk_fold(1)) (simp add: is_dir_def)
  show "scan_files c fp ((n, RegularFile) # rest) w =
       (if does_path_look_like_level (fp @ [n])
        then scan_files c fp rest (snd (scan_file_safe c (fp @ [n]) w))
        else scan_files c fp rest w)"
    by (subst scan_files_step) (simp add: is_dir_def)
next
  fix e w1 assume "scan_file c fp w = (Inl e, w1)"
  then show "scan_file_safe c fp w =
           (Inr (), w1\<lparr>trace := trace w1 @
              [Printed (''ERROR while checking \"'' @ path_str fp @ ''\":''),
               PrintedTraceback e]\<rparr>)"
    by (rule scan_file_safe_raise)
next
  fix w1 assume "scan_file c fp w = (Inr (), w1)"
  then show "scan_file_safe c fp w = (Inr (), w1)" by (rule scan_file_safe_normal)
next
  assume "lookup root fp = Some (Directory entries)"
  then show "main c root fp recursive w = scan_folder c fp (Directory entries) recursive w"
    by (rule main_directory)
next
  assume "lookup root fp = Some RegularFile"
  then show "main c root fp recursive w = scan_file c fp w" by (rule main_file)
qed

theorem exceptions_caught_per_file_witness:
  "scan_file toy_codecs [''c.arc''] example_world =
     (Inl StructError,
      example_world\<lparr>trace := trace example_world @ [Opened [''c.arc''], ReadBytes [''c.arc'']]\<rparr>)
   \<and> scan_file_safe toy_codecs [''c.arc''] example_world =
     (Inr (),
      example_world\<lparr>trace := trace example_world @ [Opened [''c.arc''], ReadBytes [''c.arc''],
         Printed (''ERROR while checking \"'' @ path_str [''c.arc''] @ ''\":''),
         PrintedTraceback StructError]\<rparr>)
   \<and> main toy_codecs (Directory [(''c.arc'', RegularFile)]) [''c.arc''] False example_world =
     (Inl StructError,
      example_world\<lparr>trace := trace example_world @ [Opened [''c.arc''], ReadBytes [''c.arc'']]\<rparr>)
   \<and> scan_folder toy_codecs [] walk_tree False walk_world =
     (Inr (),
      walk_world\<lparr>trace :=
        [Opened [''0.arc''], ReadBytes [''0.arc''],
         Printed (''ERROR while checking \"'' @ path_str [''0.arc''] @ ''\":''),
         PrintedTraceback StructError,
         Opened [''1.arc'']]\<rparr>)
   \<and> main toy_codecs walk_tree [] False walk_world =
       scan_folder toy_codecs [] walk_tree False walk_world"
proof -
  note t = exceptions_caught_per_file [of toy_codecs "[''c.arc'']" example_world
      "[(''c.arc'', RegularFile)]" False "''x''" "[]" "Directory [(''c.arc'', RegularFile)]"]
  have l: "lookup (Directory [(''c.arc'', RegularFile)]) [''c.arc''] = Some RegularFile"
    by simp
  from t have 2: "scan_file_safe toy_codecs [''c.arc''] example_world =
     (Inr (),
      example_world\<lparr>trace := trace example_world @ [Opened [''c.arc''], ReadBytes [''c.arc''],
         Printed (''ERROR while checking \"'' @ path_str [''c.arc''] @ ''\":''),
         PrintedTraceback StructError]\<rparr>)"
    using scan_file_broken by simp
  from t l have 3: "main toy_codecs (Directory [(''c.arc'', RegularFile)]) [''c.arc''] False example_world =
     (Inl StructError,
      example_world\<lparr>trace := trace example_world @ [Opened [''c.arc''], ReadBytes [''c.arc'']]\<rparr>)"
    using scan_file_broken by simp
  note u = exceptions_caught_per_file [of toy_codecs "[]" walk_world
      "[(''1.arc'', RegularFile), (''notes.txt'', RegularFile), (''0.arc'', RegularFile)]"
      False "''x''" "[]" walk_tree, folded walk_tree_def]
  from u have 4: "scan_folder toy_codecs [] walk_tree False walk_world =
     (Inr (),
      walk_world\<lparr>trace :=
        [Opened [''0.arc''], ReadBytes [''0.arc''],
         Printed (''ERROR while checking \"'' @ path_str [''0.arc''] @ ''\":''),
         PrintedTraceback StructError,
         Opened [''1.arc'']]\<rparr>)"
    by (simp only: walk_tree_order walk_world_run)
  have lw: "lookup walk_tree [] = Some walk_tree" by simp
  from u lw have 5: "main toy_codecs walk_tree [] False walk_world =
       scan_folder toy_codecs [] walk_tree False walk_world"
    by (simp add: walk_tree_def)
  from scan_file_broken 2 3 4 5 show ?thesis by (intro conjI)
qed

section \<open>The claim about running twice\<close>

lemma slot_patched_length [simp]: "length (slot_patched b) = length b"
  by (simp add: slot_patched_def split: prod.splits)

lemma slot_patched_stable:
  assumes "slot_ok b" "slot_stable b"
  shows "slot_ok (slot_patched b)" "slot_fixes (slot_patched b) = 0"
    "slot_patched (slot_patched b) = slot_patched b"
proof -
  have run: "fix_course_file b = Inr (slot_patched b, slot_fixes b)"
    using assms(1) by (simp add: fix_course_file_eq)
  from fix_course_file_again [OF run] assms(2)
  have "fix_course_file (slot_patched b) = Inr (slot_patched b, 0)"
    by (simp add: slot_stable_def)
  then show "slot_ok (slot_patched b)" "slot_fixes (slot_patched b) = 0"
    "slot_patched (slot_patched b) = slot_patched b"
    by (auto simp: fix_course_file_eq split: if_splits)
qed

lemma slot_patched_no_fixes: "slot_fixes b = 0 \<Longrightarrow> slot_patched b = b"
  by (auto simp: slot_fixes_def slot_patched_def field_bytes_def split: prod.splits)

lemma header_bytes:
  "take 4 (drop 72 d) = take 4 (drop 72 (take 80 d))"
  "take 4 (drop 76 d) = take 4 (drop 76 (take 80 d))"
  by (simp_all add: drop_take)

lemma zones_header_take: "zones_header d = zones_header (take 80 d)"
  unfolding zones_header_def using header_bytes [of d] by simp

lemma zones_header_cong:
  assumes "length d' = length d" "\<forall>k<80. k < length d \<longrightarrow> d' ! k = d ! k"
  shows "zones_header d' = zones_header d"
proof -
  have "take 80 d' = take 80 d"
    using assms by (intro nth_equalityI) simp_all
  then show ?thesis
    using zones_header_take [of d] zones_header_take [of d'] by simp
qed

lemma slot_stable_offset:
  assumes "0x46 \<le> fst (zones_header b)"
  shows "slot_stable b"
proof -
  obtain z s where h: "zones_header b = (z, s)" by (cases "zones_header b")
  with assms have z: "70 \<le> z" by simp
  have "slot_patched b ! k = b ! k" if "k < 80" "k < length b" for k
  proof -
    have "k \<notin> field_bytes z idxs" for idxs
      using z that(1) by (auto simp: field_bytes_def flag_pos_def)
    then show ?thesis using that(2) by (simp add: slot_patched_def h nth_zero_fields)
  qed
  then have "\<forall>k<80. k < length b \<longrightarrow> slot_patched b ! k = b ! k" by simp
  then show ?thesis
    unfolding slot_stable_def by (intro zones_header_cong) simp_all
qed

lemma encode_decode:
  assumes rt: "codec_round_trip c" and e: "encode_container c ic u8 = Inr d"
  shows "decoded c d = Some (ic, u8)"
proof -
  from e obtain d0 where s: "u8_save c u8 = Inr d0"
    and z: "if ic then Compress11LZS c d0 = Inr d else d = d0"
    by (auto simp: encode_container_def split: sum.splits if_splits)
  from rt s have l: "u8_load c d0 = Inr u8" and m: "take 4 d0 = container_magic"
    by (auto simp: codec_round_trip_def)
  show ?thesis
  proof (cases ic)
    case False
    with z have "d = d0" by simp
    with l m False show ?thesis
      by (simp add: decoded_def classify_def container_magic_def decode_container_def)
  next
    case True
    with z rt have dz: "Decompress11LZS c d = Inr d0" and ne: "d \<noteq> []" and h: "d ! 0 = 0x11"
      by (auto simp: codec_round_trip_def)
    have t0: "take 4 d ! 0 = 0x11" using ne h by (cases d) simp_all
    have t1: "take 4 d \<noteq> []" using ne by simp
    have t2: "take 4 d \<noteq> [0x55, 0xAA, 0x38, 0x2D]"
    proof
      assume "take 4 d = [0x55, 0xAA, 0x38, 0x2D]"
      then have "take 4 d ! 0 = 0x55" by simp
      with t0 show False by simp
    qed
    have "classify (take 4 d) = Inr ProprietaryCompressed"
      unfolding classify_def using t0 t1 t2 by simp
    with dz l True show ?thesis
      by (simp add: decoded_def decode_container_def)
  qed
qed

lemma fix_areas_well_formed:
  assumes "fix_areas course = Inr r"
  shows "list_all (slot_well_formed course) [1..<5]"
proof (rule ccontr)
  assume "\<not> list_all (slot_well_formed course) [1..<5]"
  from fix_areas_raises [OF this] assms show False by auto
qed

lemma present_well_formed:
  assumes "slot_well_formed course i" "slot_present course i"
  shows "map_of course (course_fn i) = Some (U8File (slot_data course i))"
    and "slot_ok (slot_data course i)"
  using assms
  by (auto simp: slot_well_formed_def slot_present_def slot_data_def
           split: option.splits u8node.splits)

lemma patched_course_clean:
  assumes wf: "list_all (slot_well_formed course) [1..<5]"
    and st: "list_all (\<lambda>i. slot_stable (slot_data course i)) (present_slots course)"
    and c': "\<forall>i\<in>{1..<5}. map_of course' (course_fn i) =
               (if slot_present course i \<and> 0 < slot_fixes (slot_data course i)
                then Some (U8File (slot_patched (slot_data course i)))
                else map_of course (course_fn i))"
  shows "spec_total_fixes course' = 0"
proof -
  have zero: "slot_fixes (slot_data course' i) = 0" if i: "i \<in> set (present_slots course')" for i
  proof -
    from i have r: "i \<in> {1..<5}" and p': "slot_present course' i"
      unfolding present_slots_def by simp_all
    note e = bspec [OF c' r]
    have p: "slot_present course i"
    proof (cases "slot_present course i \<and> 0 < slot_fixes (slot_data course i)")
      case True
      then show ?thesis by simp
    next
      case False
      with e have "map_of course' (course_fn i) = map_of course (course_fn i)" by simp
      with p' show ?thesis unfolding slot_present_def by simp
    qed
    from wf r have w: "slot_well_formed course i" unfolding list_all_iff by simp
    note pw = present_well_formed [OF w p]
    from p r have "i \<in> set (present_slots course)" unfolding present_slots_def by simp
    with st have s: "slot_stable (slot_data course i)" unfolding list_all_iff by blast
    show ?thesis
    proof (cases "0 < slot_fixes (slot_data course i)")
      case True
      with e p have "map_of course' (course_fn i)
          = Some (U8File (slot_patched (slot_data course i)))" by simp
      then have "slot_data course' i = slot_patched (slot_data course i)"
        unfolding slot_data_def [of course'] by simp
      then show ?thesis using slot_patched_stable(2) [OF pw(2) s] by simp
    next
      case False
      with e have "map_of course' (course_fn i) = map_of course (course_fn i)" by simp
      then have "slot_data course' i = slot_data course i"
        unfolding slot_data_def by simp
      then show ?thesis using False by simp
    qed
  qed
  have "sum_list (map (\<lambda>i. slot_fixes (slot_data course' i)) (present_slots course')) = 0"
    unfolding sum_list_eq_0_iff using zero by simp
  then show ?thesis unfolding spec_total_fixes_def .
qed

lemma fix_container_again:
  assumes fc: "fix_container u8 = Inr (u8', t, a)"
    and st: "\<forall>course. map_of u8 ''course'' = Some (U8Folder course) \<longrightarrow>
               list_all (\<lambda>i. slot_stable (slot_data course i)) (present_slots course)"
    and fc': "fix_container u8' = Inr (u8'', t', a')"
  shows "t' = 0"
proof -
  from fc obtain course course' where m: "map_of u8 ''course'' = Some (U8Folder course)"
    and fa: "fix_areas course = Inr (course', t, a)"
    and u: "u8' = AList.update ''course'' (U8Folder course') u8"
    by (auto simp: fix_container_def split: option.splits u8node.splits sum.splits)
  have wf: "list_all (slot_well_formed course) [1..<5]" by (rule fix_areas_well_formed [OF fa])
  from fix_areas_returns [OF wf] fa
  have c': "\<forall>i\<in>{1..<5}. map_of course' (course_fn i) =
               (if slot_present course i \<and> 0 < slot_fixes (slot_data course i)
                then Some (U8File (slot_patched (slot_data course i)))
                else map_of course (course_fn i))"
    by auto
  from st m have s: "list_all (\<lambda>i. slot_stable (slot_data course i)) (present_slots course)"
    by blast
  have z: "spec_total_fixes course' = 0" by (rule patched_course_clean [OF wf s c'])
  have m': "map_of u8' ''course'' = Some (U8Folder course')"
    unfolding u by (simp add: update_conv')
  from fix_container_total [OF fc' m'] z show ?thesis by simp
qed

lemma second_run_unmodified:
  assumes rt: "codec_round_trip c" and f: "files w fp = Some content"
    and st: "stable_slots c content"
    and run1: "scan_file c fp w = (r1, w1)" and run2: "scan_file c fp w1 = (r2, w2)"
  shows "unmodified w1 w2"
proof (cases "\<exists>ic u8' t a. target_fixes c content = Some (ic, u8', t, a) \<and> 0 < t")
  case False
  from scan_file_unmodified [OF f run1 False] have "files w1 = files w"
    by (simp add: unmodified_def)
  with f have f1: "files w1 fp = Some content" by simp
  show ?thesis by (rule scan_file_unmodified [OF f1 run2 False])
next
  case True
  then obtain ic u8' t a where tg: "target_fixes c content = Some (ic, u8', t, a)" and t: "0 < t"
    by blast
  from tg obtain u8 where d: "decoded c content = Some (ic, u8)"
    and fc: "fix_container u8 = Inr (u8', t, a)"
    by (auto simp: target_fixes_def split: option.splits if_splits sum.splits)
  note r1 = scan_file_target [OF f tg]
  show ?thesis
  proof (cases "encode_container c ic u8'")
    case (Inl e)
    with r1 t run1 have w1: "w1 = w\<lparr>trace := trace w @ [Opened fp, ReadBytes fp,
                                  Printed (summary_line t a fp)]\<rparr>" by simp
    with f have f1: "files w1 fp = Some content" by simp
    from scan_file_target [OF f1 tg] t Inl run2
    have "w2 = w1\<lparr>trace := trace w1 @ [Opened fp, ReadBytes fp,
                                  Printed (summary_line t a fp)]\<rparr>" by simp
    then show ?thesis by (rule unmodified_append) (simp add: is_write_def)
  next
    case (Inr data)
    with r1 t run1 have "w1 = w\<lparr>files := (files w)(fp \<mapsto> data),
                                trace := trace w @ [Opened fp, ReadBytes fp,
                                  Printed (summary_line t a fp), Wrote fp data]\<rparr>" by simp
    then have f1: "files w1 fp = Some data" by simp
    have d': "decoded c data = Some (ic, u8')" by (rule encode_decode [OF rt Inr])
    have stc: "\<forall>course. map_of u8 ''course'' = Some (U8Folder course) \<longrightarrow>
               list_all (\<lambda>i. slot_stable (slot_data course i)) (present_slots course)"
      using st d by (auto simp: stable_slots_def)
    have "\<not> (\<exists>ic' u8'' t' a'. target_fixes c data = Some (ic', u8'', t', a') \<and> 0 < t')"
    proof
      assume "\<exists>ic' u8'' t' a'. target_fixes c data = Some (ic', u8'', t', a') \<and> 0 < t'"
      then obtain ic' u8'' t' a' where tg': "target_fixes c data = Some (ic', u8'', t', a')"
        and t': "0 < t'" by blast
      from tg' d' have "fix_container u8' = Inr (u8'', t', a')"
        by (auto simp: target_fixes_def split: if_splits sum.splits)
      from fix_container_again [OF fc stc this] t' show False by simp
    qed
    then show ?thesis by (rule scan_file_unmodified [OF f1 run2])
  qed
qed

lemma rewritten_target_clean:
  assumes rt: "codec_round_trip c" and st: "stable_slots c content"
    and tg: "target_fixes c content = Some (ic, u8', t, a)"
    and en: "encode_container c ic u8' = Inr data"
    and tg': "target_fixes c data = Some (ic', u8'', t', a')"
  shows "t' = 0"
proof -
  from tg obtain u8 where d: "decoded c content = Some (ic, u8)"
    and fc: "fix_container u8 = Inr (u8', t, a)"
    by (auto simp: target_fixes_def split: option.splits if_splits sum.splits)
  have d': "decoded c data = Some (ic, u8')" by (rule encode_decode [OF rt en])
  have stc: "\<forall>course. map_of u8 ''course'' = Some (U8Folder course) \<longrightarrow>
               list_all (\<lambda>i. slot_stable (slot_data course i)) (present_slots course)"
    using st d by (auto simp: stable_slots_def)
  from tg' d' have "fix_container u8' = Inr (u8'', t', a')"
    by (auto simp: target_fixes_def split: if_splits sum.splits)
  from fix_container_again [OF fc stc this] show ?thesis .
qed

lemma toy_round_trip: "codec_round_trip toy_codecs"
proof -
  have ne: "container_magic @ [2] \<noteq> container_magic @ [1]" by simp
  have m: "take 4 (container_magic @ rest) = container_magic" for rest
    by (simp add: container_magic_def)
  show ?thesis
    unfolding codec_round_trip_def toy_codecs_def
    by (auto simp: container_magic_def split: if_splits)
qed

lemma example_slot_stable: "slot_stable example_slot"
  by code_simp

lemma toy_stable: "stable_slots toy_codecs (container_magic @ [1])"
proof -
  have p: "list_all (\<lambda>i. slot_stable (slot_data example_course i)) (present_slots example_course)"
    by code_simp
  show ?thesis
    unfolding stable_slots_def decoded_example
    by (simp add: example_container_def p)
qed

lemma far_slot_offset: "0x46 \<le> fst (zones_header far_slot)"
  by code_simp

lemma overlapping_facts:
  "slot_ok overlapping_slot" "slot_patched overlapping_slot = overlapping_once"
  "slot_fixes overlapping_slot = 1"
  "slot_ok overlapping_once" "slot_patched overlapping_once = overlapping_twice"
  "slot_fixes overlapping_once = 1"
  by code_simp+

text \<open>
  Claim C4, as amended. For every slot on which the patch returns and whose header fields
  it leaves unchanged, patching the patched bytes returns the same bytes and the count 0;
  the header fields are left unchanged whenever the declared offset is at least \<open>0x46\<close>,
  since then no flag field lies in the header. When moreover the codecs round-trip and the
  slots of the file's container are stable, what a first run of \<open>scan_file\<close> wrote decodes
  to a container with no nonzero flag (\<open>total_fixes\<close> is 0), and a second run on the same
  file writes nothing and leaves every file as it is, whatever the first run did.
\<close>

theorem patch_idempotent_when_header_kept:
  "(fix_course_file b = Inr (b', n) \<and> slot_stable b \<longrightarrow> fix_course_file b' = Inr (b', 0))
   \<and> (0x46 \<le> fst (zones_header b) \<longrightarrow> slot_stable b)
   \<and> (codec_round_trip c \<and> stable_slots c content
        \<and> target_fixes c content = Some (ic, u8', t, a)
        \<and> encode_container c ic u8' = Inr data
        \<and> target_fixes c data = Some (ic', u8'', t', a') \<longrightarrow> t' = 0)
   \<and> (codec_round_trip c \<and> files w fp = Some content \<and> stable_slots c content
        \<and> scan_file c fp w = (r1, w1) \<and> scan_file c fp w1 = (r2, w2)
        \<longrightarrow> unmodified w1 w2)"
proof (intro conjI impI)
  assume a: "fix_course_file b = Inr (b', n) \<and> slot_stable b"
  then have ok: "slot_ok b" and b': "b' = slot_patched b"
    by (auto simp: fix_course_file_eq split: if_splits)
  from a have "zones_header b' = zones_header b" unfolding b' slot_stable_def by simp
  with a show "fix_course_file b' = Inr (b', 0)" by (intro fix_course_file_again) simp_all
next
  assume "0x46 \<le> fst (zones_header b)"
  then show "slot_stable b" by (rule slot_stable_offset)
next
  assume "codec_round_trip c \<and> stable_slots c content
        \<and> target_fixes c content = Some (ic, u8', t, a)
        \<and> encode_container c ic u8' = Inr data
        \<and> target_fixes c data = Some (ic', u8'', t', a')"
  then show "t' = 0" by (intro rewritten_target_clean [of c content ic u8' t a data]) simp_all
next
  assume "codec_round_trip c \<and> files w fp = Some content \<and> stable_slots c content
        \<and> scan_file c fp w = (r1, w1) \<and> scan_file c fp w1 = (r2, w2)"
  then show "unmodified w1 w2"
    by (intro second_run_unmodified [of c w fp content r1 w1 r2 w2]) simp_all
qed

theorem patch_idempotent_when_header_kept_witness:
  "fix_course_file patched_slot = Inr (patched_slot, 0)
   \<and> slot_stable far_slot
   \<and> unmodified (snd (scan_file toy_codecs [''a.arc''] example_world))
        (snd (scan_file toy_codecs [''a.arc'']
           (snd (scan_file toy_codecs [''a.arc''] example_world))))"
proof -
  let ?w1 = "snd (scan_file toy_codecs [''a.arc''] example_world)"
  let ?w2 = "snd (scan_file toy_codecs [''a.arc''] ?w1)"
  have r: "fix_course_file example_slot = Inr (patched_slot, 1)"
    using example_slot_result by (simp add: patched_slot_def)
  have 1: "fix_course_file patched_slot = Inr (patched_slot, 0)"
    using patch_idempotent_when_header_kept [of example_slot patched_slot 1] r example_slot_stable
    by simp
  have 2: "slot_stable far_slot"
    using patch_idempotent_when_header_kept [of far_slot] far_slot_offset by simp
  have run1: "scan_file toy_codecs [''a.arc''] example_world
      = (fst (scan_file toy_codecs [''a.arc''] example_world), ?w1)" by simp
  have run2: "scan_file toy_codecs [''a.arc''] ?w1
      = (fst (scan_file toy_codecs [''a.arc''] ?w1), ?w2)" by simp
  have 3: "unmodified ?w1 ?w2"
    using patch_idempotent_when_header_kept [of _ _ _ toy_codecs "container_magic @ [1]"
        _ _ _ _ _ _ _ _ _ example_world "[''a.arc'']"
        "fst (scan_file toy_codecs [''a.arc''] example_world)" ?w1
        "fst (scan_file toy_codecs [''a.arc''] ?w1)" ?w2]
      toy_round_trip toy_stable example_world_files(1) run1 run2
    by blast
  from 1 2 3 show ?thesis by (intro conjI)
qed

text \<open>
  The claim as stated, for every slot, fails: the header of \<open>overlapping_slot\<close> declares one
  record at offset 64, whose flag field is the low half of the header's own offset field.
  The patch clears it, the patched slot declares its record at offset 0, and a second patch
  finds the nonzero flag there.
\<close>

theorem patch_twice_counterexample:
  "fix_course_file overlapping_slot = Inr (overlapping_once, 1)
   \<and> fix_course_file overlapping_once = Inr (overlapping_twice, 1)
   \<and> overlapping_twice ! 11 \<noteq> overlapping_once ! 11"
proof -
  have "overlapping_twice ! 11 \<noteq> overlapping_once ! 11"
    by (simp add: overlapping_twice_def overlapping_once_def)
  then show ?thesis by (simp add: fix_course_file_eq overlapping_facts)
qed

end
